theory Spec2Isabelle
  imports Complex_Main "HOL-Library.Log_Nat"
begin

section \<open>Python floats\<close>

text \<open>
  A finite Python float is modelled by the real number it denotes. An arithmetic
  operation on floats returns the exact result rounded to the nearest double, ties to
  even (IEEE 754 binary64: 53 significant bits, least normal exponent \<open>-1022\<close>, subnormal
  numbers included). Overflow to infinity is not modelled; the quantities of this
  program (weights, prefix sums, probabilities, page counts) stay far below it. Integer
  operands are taken by their value; converting them is exact below \<open>2 ^ 53\<close>. Every
  division of the source is guarded against a zero divisor.
\<close>

definition round_half_even :: "real \<Rightarrow> int" where
  "round_half_even x =
     (let f = \<lfloor>x\<rfloor>; d = x - of_int f
      in if d < 1/2 then f else if 1/2 < d then f + 1 else if even f then f else f + 1)"

text \<open>For \<open>x > 0\<close>, the integer \<open>e\<close> with \<open>2 ^ e \<le> x < 2 ^ (e + 1)\<close>.\<close>

definition binary_exponent :: "real \<Rightarrow> int" where
  "binary_exponent x = (if 1 \<le> x then bitlen \<lfloor>x\<rfloor> - 1 else - bitlen (\<lceil>1 / x\<rceil> - 1))"

text \<open>The exponent of the unit in the last place of the doubles around \<open>x > 0\<close>.\<close>

definition ulp_exponent :: "real \<Rightarrow> int" where
  "ulp_exponent x = max (binary_exponent x) (- 1022) - 52"

definition round_double :: "real \<Rightarrow> real" where
  "round_double x =
     (if x = 0 then 0
      else sgn x * (of_int (round_half_even (\<bar>x\<bar> / 2 powi ulp_exponent \<bar>x\<bar>))
                     * 2 powi ulp_exponent \<bar>x\<bar>))"

definition fadd :: "real \<Rightarrow> real \<Rightarrow> real" where
  "fadd x y = round_double (x + y)"

definition fsub :: "real \<Rightarrow> real \<Rightarrow> real" where
  "fsub x y = round_double (x - y)"

definition fmul :: "real \<Rightarrow> real \<Rightarrow> real" where
  "fmul x y = round_double (x * y)"

definition fdiv :: "real \<Rightarrow> real \<Rightarrow> real" where
  "fdiv x y = round_double (x / y)"

text \<open>
  \<open>sum(xs)\<close> over floats: additions from the left, starting at 0, each one rounded (the
  sum of CPython up to 3.11; later versions also carry a correction term for the rounding
  errors, which is 0 whenever every partial sum is exact).
\<close>

definition fsum :: "real list \<Rightarrow> real" where
  "fsum xs = foldl fadd 0 xs"

section \<open>Weighted Selector and Step Engine (class PostscriptBase)\<close>

text \<open>
  Notoriety values are Python integers (\<open>int\<close>). A cumulative threshold table is a list
  of floats. The only source of randomness of a run, \<open>random.random()\<close>, is made an
  explicit argument \<open>roll\<close>. A weight distribution is a dictionary from genre to float.
\<close>

datatype genre = Romance | Adventure | Comedy | Tragedy | Suspense

definition GENRES :: "genre list" where
  "GENRES = [Romance, Adventure, Comedy, Tragedy, Suspense]"

text \<open>
  The loop of \<open>_prepare_weight_cumulative\<close>:
  \<^verbatim>\<open>for genre in self.GENRES: running += weights[genre]; cumulative.append(running)\<close>
  \<open>None\<close> is the KeyError of \<open>weights[genre]\<close>.
\<close>

fun running_sums :: "(genre \<rightharpoonup> real) \<Rightarrow> real \<Rightarrow> genre list \<Rightarrow> real list option" where
  "running_sums weights running [] = Some []"
| "running_sums weights running (g # rest) =
     (case weights g of
        None \<Rightarrow> None
      | Some w \<Rightarrow>
          (case running_sums weights (fadd running w) rest of
             None \<Rightarrow> None
           | Some cumulative \<Rightarrow> Some (fadd running w # cumulative)))"

text \<open>\<open>_prepare_weight_cumulative\<close>; \<open>cumulative[-1] = 1.0\<close> overwrites the last entry.\<close>

definition prepare_weight_cumulative :: "(genre \<rightharpoonup> real) \<Rightarrow> real list option" where
  "prepare_weight_cumulative weights =
     (case running_sums weights 0 GENRES of
        None \<Rightarrow> None
      | Some cumulative \<Rightarrow> Some (cumulative[length cumulative - 1 := 1]))"

text \<open>
  \<open>CheeseAllocator.get_genre_weight_distribution\<close>. The argument holds the sanitized
  values of \<open>self.genre_page_vars\<close>, natural numbers; \<open>None\<close> is the IndexError of
  \<open>self.genre_page_vars[idx]\<close>. The total is an exact integer sum, and \<open>value / total\<close> is
  Python's correctly rounded division of integers.
\<close>

definition get_genre_weight_distribution :: "nat list \<Rightarrow> (genre \<rightharpoonup> real) option" where
  "get_genre_weight_distribution genre_page_vars =
     (if length genre_page_vars < length GENRES then None
      else
        let raw_counts = take (length GENRES) genre_page_vars;
            total = sum_list raw_counts
        in if total = 0
           then Some (map_of (map (\<lambda>genre. (genre, fdiv 1 (real (length GENRES)))) GENRES))
           else Some (map_of (zip GENRES
                        (map (\<lambda>value. fdiv (real value) (real total)) raw_counts))))"

text \<open>\<open>CheeseAllocator._prepare_weight_cumulative\<close>: the table of the current page counts.\<close>

definition allocator_weight_cumulative :: "nat list \<Rightarrow> real list option" where
  "allocator_weight_cumulative genre_page_vars =
     (case get_genre_weight_distribution genre_page_vars of
        None \<Rightarrow> None
      | Some weights \<Rightarrow> prepare_weight_cumulative weights)"

definition NOTORIETY_CAP :: int where
  "NOTORIETY_CAP = 200"

text \<open>
  Python indexing \<open>xs[i]\<close>: a negative index counts from the end, an index outside
  \<open>[-len, len)\<close> raises IndexError (\<open>None\<close>).
\<close>

definition py_index :: "'a list \<Rightarrow> int \<Rightarrow> nat option" where
  "py_index xs i =
     (if 0 \<le> i \<and> i < int (length xs) then Some (nat i)
      else if - int (length xs) \<le> i \<and> i < 0 then Some (nat (int (length xs) + i))
      else None)"

text \<open>
  \<^verbatim>\<open>for idx, threshold in enumerate(cumulative_weights): if roll <= threshold: return idx\<close>
\<close>

fun first_threshold :: "real \<Rightarrow> nat \<Rightarrow> real list \<Rightarrow> nat option" where
  "first_threshold roll idx [] = None"
| "first_threshold roll idx (threshold # rest) =
     (if roll \<le> threshold then Some idx else first_threshold roll (Suc idx) rest)"

text \<open>\<open>_select_genre_index\<close>; when no threshold matches it returns \<open>len - 1\<close>.\<close>

definition select_genre_index :: "real list \<Rightarrow> real \<Rightarrow> int" where
  "select_genre_index cumulative_weights roll =
     (case first_threshold roll 0 cumulative_weights of
        Some idx \<Rightarrow> int idx
      | None \<Rightarrow> int (length cumulative_weights) - 1)"

text \<open>
  The decay loop of \<open>_apply_hunt_step\<close>:
  \<^verbatim>\<open>for other in range(len(values)): if other != idx and values[other] > 1: values[other] -= 1\<close>
  Each iteration reads and writes position \<open>other\<close> only, so the in-place loop is a map
  over the positions. The comparison is with the index as \<open>_select_genre_index\<close>
  returned it.
\<close>

definition decay_others :: "int \<Rightarrow> int list \<Rightarrow> int list" where
  "decay_others idx values =
     map (\<lambda>(other, v). if int other \<noteq> idx \<and> v > 1 then v - 1 else v)
       (enumerate 0 values)"

text \<open>\<open>_apply_hunt_step\<close>; \<open>None\<close> is the IndexError of \<open>values[idx]\<close>.\<close>

definition apply_hunt_step :: "int list \<Rightarrow> int \<Rightarrow> real list \<Rightarrow> real \<Rightarrow> int list option" where
  "apply_hunt_step values cheese_value cumulative_weights roll =
     (let idx = select_genre_index cumulative_weights roll
      in case py_index values idx of
           None \<Rightarrow> None
         | Some k \<Rightarrow>
             Some (decay_others idx
                    (values[k := min NOTORIETY_CAP (values ! k + cheese_value)])))"

text \<open>
  The random source: \<open>rolls k\<close> is the value of the \<open>k\<close>-th call of \<open>random.random()\<close>;
  a function that draws takes the position \<open>pos\<close> of its first draw.

  The loop of \<open>_simulate_sequence\<close>, one step per token of the spend sequence.
\<close>

fun hunt_loop ::
  "int list \<Rightarrow> int list \<Rightarrow> real list \<Rightarrow> (nat \<Rightarrow> real) \<Rightarrow> nat \<Rightarrow> int list option" where
  "hunt_loop values [] cumulative_weights rolls pos = Some values"
| "hunt_loop values (cheese_value # rest) cumulative_weights rolls pos =
     (case apply_hunt_step values cheese_value cumulative_weights (rolls pos) of
        None \<Rightarrow> None
      | Some values' \<Rightarrow> hunt_loop values' rest cumulative_weights rolls (Suc pos))"

definition simulate_sequence ::
  "int list \<Rightarrow> int list \<Rightarrow> real list \<Rightarrow> (nat \<Rightarrow> real) \<Rightarrow> nat \<Rightarrow> (int list \<times> bool) option" where
  "simulate_sequence base_notoriety cheese_sequence cumulative_weights rolls pos =
     (case hunt_loop base_notoriety cheese_sequence cumulative_weights rolls pos of
        None \<Rightarrow> None
      | Some values \<Rightarrow> Some (values, list_all (\<lambda>v. 80 \<le> v) values))"

section \<open>Extension Policy (class DualPostscriptSimulator)\<close>

text \<open>
  One entry of \<open>self.setup_data\<close>. \<open>page_vars\<close> holds the page counts as
  \<open>_sanitize_string_var\<close> returns them (digits only, hence natural numbers); the widgets
  themselves are outside the model.
\<close>

record hunt_setup =
  extend_var :: bool
  auto_extend_var :: bool
  page_vars :: "nat list"
  m_value :: int

record ext_config =
  top_indices :: "nat list"
  threshold_ready :: int
  threshold_high :: int
  extra_hunts :: nat
  setup_index :: nat

text \<open>
  \<open>_extension_config\<close>. Every caller passes \<open>self.setup_data[setup_index]\<close>, and each setup
  holds its own frame widget, so \<open>self.setup_data.index(setup)\<close> is that \<open>setup_index\<close>:
  the model takes it as the argument \<open>idx0\<close>. \<open>None\<close> is the source's \<open>return None\<close>.
\<close>

definition extension_config :: "hunt_setup \<Rightarrow> nat \<Rightarrow> ext_config option" where
  "extension_config setup idx0 =
     (if \<not> auto_extend_var setup then None
      else
        let page_counts = page_vars setup in
        if page_counts = [] then None
        else
          let max_pages = Max (set page_counts) in
          if max_pages \<le> 0 then None
          else Some \<lparr>top_indices = filter (\<lambda>idx. page_counts ! idx = max_pages) [0..<length page_counts],
                     threshold_ready = 80 + m_value setup,
                     threshold_high = 33 + m_value setup,
                     extra_hunts = 3,
                     setup_index = idx0\<rparr>)"

text \<open>
  \<^verbatim>\<open>any(values[idx] < threshold for idx in top_indices)\<close>, stopping at the first hit;
  \<open>None\<close> is the IndexError of \<open>values[idx]\<close>.
\<close>

fun any_below :: "int list \<Rightarrow> int \<Rightarrow> nat list \<Rightarrow> bool option" where
  "any_below values threshold [] = Some False"
| "any_below values threshold (idx # rest) =
     (if idx < length values
      then (if values ! idx < threshold then Some True else any_below values threshold rest)
      else None)"

text \<open>
  The second-stage loop of \<open>_should_trigger_extension\<close>:
  \<^verbatim>\<open>for idx in top_indices: if page_count == 0 and values[idx] < 83: return False\<close>
  \<open>Some True\<close> says that the \<open>return False\<close> was executed, \<open>Some False\<close> that the loop
  ran to its end. \<open>values[idx]\<close> is read only when the page count is 0.
\<close>

fun zero_page_scan :: "nat list \<Rightarrow> int list \<Rightarrow> nat list \<Rightarrow> bool option" where
  "zero_page_scan page_counts values [] = Some False"
| "zero_page_scan page_counts values (idx # rest) =
     (if idx < length page_counts
      then (if page_counts ! idx = 0
            then (if idx < length values
                  then (if values ! idx < 83 then Some True
                        else zero_page_scan page_counts values rest)
                  else None)
            else zero_page_scan page_counts values rest)
      else None)"

definition should_trigger_extension ::
  "hunt_setup list \<Rightarrow> int list \<Rightarrow> ext_config \<Rightarrow> bool option" where
  "should_trigger_extension setup_data values config =
     (if setup_index config = 1
      then (if 1 < length setup_data
            then (case zero_page_scan (page_vars (setup_data ! 1)) values (top_indices config) of
                    None \<Rightarrow> None
                  | Some True \<Rightarrow> Some False
                  | Some False \<Rightarrow> any_below values (threshold_ready config) (top_indices config))
            else None)
      else any_below values (threshold_ready config) (top_indices config))"

text \<open>
  \<open>_apply_extension\<close>. \<open>extension_loop n\<close> runs the remaining \<open>n\<close> iterations with the
  current \<open>switch_to_medium\<close> flag. Besides the final values it returns, for every
  iteration in order, the values before the step and the magnitude handed to
  \<open>_apply_hunt_step\<close>.
\<close>

fun extension_loop ::
  "nat \<Rightarrow> bool \<Rightarrow> int list \<Rightarrow> real list \<Rightarrow> ext_config \<Rightarrow> (nat \<Rightarrow> real) \<Rightarrow> nat \<Rightarrow>
     (int list \<times> (int list \<times> int) list) option" where
  "extension_loop 0 switch_to_medium values cumulative_weights config rolls pos = Some (values, [])"
| "extension_loop (Suc n) switch_to_medium values cumulative_weights config rolls pos =
     (case (if \<not> switch_to_medium
            then (case any_below values (threshold_high config) (top_indices config) of
                    None \<Rightarrow> None
                  | Some True \<Rightarrow> Some (125, False)
                  | Some False \<Rightarrow> Some (50, True))
            else Some (50, True)) of
        None \<Rightarrow> None
      | Some (cheese_value, switch') \<Rightarrow>
          (case apply_hunt_step values cheese_value cumulative_weights (rolls pos) of
             None \<Rightarrow> None
           | Some values' \<Rightarrow>
               (case extension_loop n switch' values' cumulative_weights config rolls (Suc pos) of
                  None \<Rightarrow> None
                | Some (final, trace) \<Rightarrow> Some (final, (values, cheese_value) # trace))))"

definition apply_extension ::
  "int list \<Rightarrow> real list \<Rightarrow> ext_config \<Rightarrow> (nat \<Rightarrow> real) \<Rightarrow> nat \<Rightarrow>
     (int list \<times> (int list \<times> int) list) option" where
  "apply_extension values cumulative_weights config rolls pos =
     extension_loop (extra_hunts config) False values cumulative_weights config rolls pos"

text \<open>\<open>_execute_setup\<close>: the run, then the extension when configured and triggered.\<close>

definition execute_setup ::
  "hunt_setup list \<Rightarrow> int list \<Rightarrow> nat \<Rightarrow> int list list \<Rightarrow> real list list \<Rightarrow> (nat \<Rightarrow> real) \<Rightarrow> nat \<Rightarrow>
     (int list \<times> bool \<times> bool) option" where
  "execute_setup setup_data start_values idx0 sequences cumulative_weights rolls pos =
     (if idx0 < length sequences \<and> idx0 < length cumulative_weights \<and> idx0 < length setup_data
      then
        (case simulate_sequence start_values (sequences ! idx0) (cumulative_weights ! idx0) rolls pos of
           None \<Rightarrow> None
         | Some (values, ready) \<Rightarrow>
             (case extension_config (setup_data ! idx0) idx0 of
                None \<Rightarrow> Some (values, list_all (\<lambda>v. 80 \<le> v) values, False)
              | Some config \<Rightarrow>
                  (case should_trigger_extension setup_data values config of
                     None \<Rightarrow> None
                   | Some False \<Rightarrow> Some (values, list_all (\<lambda>v. 80 \<le> v) values, False)
                   | Some True \<Rightarrow>
                       (case apply_extension values (cumulative_weights ! idx0) config rolls
                               (pos + length (sequences ! idx0)) of
                          None \<Rightarrow> None
                        | Some (values', trace) \<Rightarrow>
                            Some (values', list_all (\<lambda>v. 80 \<le> v) values', True)))))
      else None)"

section \<open>Pruned two-stage variant (class DualPostscriptPrunedSimulator)\<close>

definition second_setup_prune_threshold :: "hunt_setup list \<Rightarrow> int option" where
  "second_setup_prune_threshold setup_data =
     (if 1 < length setup_data
      then Some (if extend_var (setup_data ! 1) then 93 else 90)
      else None)"

text \<open>
  The loop of \<open>_build_pruned_page_counts\<close>:
  \<^verbatim>\<open>for idx, count in enumerate(counts): pruned.append(0 if notoriety_values[idx] > threshold else count)\<close>
\<close>

fun prune_loop :: "int \<Rightarrow> int list \<Rightarrow> nat \<Rightarrow> nat list \<Rightarrow> nat list option" where
  "prune_loop threshold notoriety_values idx [] = Some []"
| "prune_loop threshold notoriety_values idx (count # rest) =
     (if idx < length notoriety_values
      then (case prune_loop threshold notoriety_values (Suc idx) rest of
              None \<Rightarrow> None
            | Some pruned \<Rightarrow>
                Some ((if notoriety_values ! idx > threshold then 0 else count) # pruned))
      else None)"

definition build_pruned_page_counts :: "hunt_setup list \<Rightarrow> int list \<Rightarrow> nat list option" where
  "build_pruned_page_counts setup_data notoriety_values =
     (case second_setup_prune_threshold setup_data of
        None \<Rightarrow> None
      | Some threshold \<Rightarrow>
          prune_loop threshold notoriety_values 0 (page_vars (setup_data ! 1)))"

definition extension_config_with_counts :: "hunt_setup \<Rightarrow> nat \<Rightarrow> nat list \<Rightarrow> ext_config option" where
  "extension_config_with_counts setup idx0 custom_counts =
     (if \<not> auto_extend_var setup then None
      else
        let page_counts = custom_counts in
        if page_counts = [] then None
        else
          let max_pages = Max (set page_counts) in
          if max_pages \<le> 0 then None
          else Some \<lparr>top_indices = filter (\<lambda>idx. page_counts ! idx = max_pages) [0..<length page_counts],
                     threshold_ready = 80 + m_value setup,
                     threshold_high = 33 + m_value setup,
                     extra_hunts = 3,
                     setup_index = idx0\<rparr>)"

definition should_trigger_extension_with_counts ::
  "int list \<Rightarrow> ext_config \<Rightarrow> nat list \<Rightarrow> bool option" where
  "should_trigger_extension_with_counts values config custom_counts =
     (if setup_index config = 1
      then (case zero_page_scan custom_counts values (top_indices config) of
              None \<Rightarrow> None
            | Some True \<Rightarrow> Some False
            | Some False \<Rightarrow> any_below values (threshold_ready config) (top_indices config))
      else any_below values (threshold_ready config) (top_indices config))"

section \<open>Distribution Optimizer (class PostscriptOptimizer)\<close>

text \<open>
  Count vectors are lists of floats. The page counts, Python integers at the start, are
  taken as the floats of the same value: this is the code's arithmetic for counts whose
  total is below \<open>2 ^ 53\<close>, where the conversion to float and the sum of the integers are
  exact. \<open>_weights_from_counts\<close>; \<open>None\<close> is the IndexError of \<open>counts[idx]\<close>.
\<close>

definition weights_from_counts :: "real list \<Rightarrow> (genre \<rightharpoonup> real) option" where
  "weights_from_counts counts =
     (let total = fsum counts
      in if total \<le> 0
         then Some (map_of (map (\<lambda>genre. (genre, fdiv 1 (real (length GENRES)))) GENRES))
         else if length counts < length GENRES then None
         else Some (map_of (zip GENRES
                      (map (\<lambda>value. fdiv value total) (take (length GENRES) counts)))))"

text \<open>
  The loop of \<open>_simulate_probability\<close>: \<open>simulations\<close> runs, each drawing one roll per token,
  counting the ready ones.
\<close>

fun ready_runs_loop ::
  "nat \<Rightarrow> nat \<Rightarrow> int list \<Rightarrow> int list \<Rightarrow> real list \<Rightarrow> (nat \<Rightarrow> real) \<Rightarrow> nat \<Rightarrow> nat option" where
  "ready_runs_loop 0 ready_runs base_notoriety cheese_sequence cumulative rolls pos =
     Some ready_runs"
| "ready_runs_loop (Suc n) ready_runs base_notoriety cheese_sequence cumulative rolls pos =
     (case simulate_sequence base_notoriety cheese_sequence cumulative rolls pos of
        None \<Rightarrow> None
      | Some (final, ready) \<Rightarrow>
          ready_runs_loop n (if ready then ready_runs + 1 else ready_runs)
            base_notoriety cheese_sequence cumulative rolls (pos + length cheese_sequence))"

definition simulate_probability ::
  "real list \<Rightarrow> int list \<Rightarrow> int list \<Rightarrow> nat \<Rightarrow> (nat \<Rightarrow> real) \<Rightarrow> nat \<Rightarrow> real option" where
  "simulate_probability counts base_notoriety cheese_sequence simulations rolls pos =
     (case weights_from_counts counts of
        None \<Rightarrow> None
      | Some weights \<Rightarrow>
          (case prepare_weight_cumulative weights of
             None \<Rightarrow> None
           | Some cumulative \<Rightarrow>
               (case ready_runs_loop simulations 0 base_notoriety cheese_sequence cumulative rolls pos of
                  None \<Rightarrow> None
                | Some ready_runs \<Rightarrow>
                    Some (fdiv (real ready_runs) (real (max 1 simulations))))))"

text \<open>
  The random choices of one call of \<open>_generate_candidate_counts\<close>: \<open>sampled\<close> is the result
  of \<open>random.sample(positive_indices, subset_size)\<close> (a list of \<open>subset_size\<close> distinct
  members of \<open>positive_indices\<close>), and \<open>uniforms k\<close> is the value of \<open>random.random()\<close> inside
  the \<open>k\<close>-th call of \<open>random.uniform\<close>.
\<close>

record candidate_draw =
  sampled :: "nat list"
  uniforms :: "nat \<Rightarrow> real"

text \<open>\<open>random.uniform(a, b)\<close> is \<open>a + (b - a) * random()\<close>.\<close>

definition random_uniform :: "real \<Rightarrow> real \<Rightarrow> real \<Rightarrow> real" where
  "random_uniform a b u = fadd a (fmul (fsub b a) u)"

text \<open>The loop \<open>for idx in selected\<close> of \<open>_generate_candidate_counts\<close>.\<close>

fun vary_selected ::
  "real list \<Rightarrow> real \<Rightarrow> real list \<Rightarrow> (nat \<Rightarrow> real) \<Rightarrow> nat \<Rightarrow> nat list \<Rightarrow> real list \<Rightarrow> real list" where
  "vary_selected base_counts dial_range direction_bias us k [] varied = varied"
| "vary_selected base_counts dial_range direction_bias us k (idx # rest) varied =
     (let value = base_counts ! idx;
          bias = (if idx < length direction_bias then direction_bias ! idx else 0);
          delta = fadd (random_uniform (fdiv (- dial_range) 100) (fdiv dial_range 100) (us k))
                       (fmul bias (round_double (1/10)))
      in vary_selected base_counts dial_range direction_bias us (Suc k) rest
           (varied[idx := max 0 (fmul value (fadd 1 delta))]))"

definition generate_candidate_counts ::
  "real list \<Rightarrow> real \<Rightarrow> real list \<Rightarrow> candidate_draw \<Rightarrow> real list" where
  "generate_candidate_counts base_counts dial_range direction_bias draw =
     (let positive = filter (\<lambda>idx. base_counts ! idx > 0) [0..<length base_counts];
          positive_indices = (if positive = [] then [0..<length base_counts] else positive);
          subset_size = max 1 ((length positive_indices + 1) div 2);
          selected = (if length positive_indices > subset_size then sampled draw
                      else positive_indices)
      in vary_selected base_counts dial_range direction_bias (uniforms draw) 0 selected base_counts)"

definition systematic_candidates :: "real list \<Rightarrow> real \<Rightarrow> real list list" where
  "systematic_candidates base_counts dial_range =
     (if base_counts = [] then []
      else
        let candidates =
              concat (map (\<lambda>(idx, value).
                        if value \<le> 0 then []
                        else [base_counts[idx := max 0 (fmul value (fadd 1 (fdiv dial_range 100)))],
                              base_counts[idx := max 0 (fmul value (fsub 1 (fdiv dial_range 100)))]])
                      (enumerate 0 base_counts))
        in if candidates = [] then [base_counts] else candidates)"

text \<open>
  The regeneration loop of \<open>_run_optimization\<close>:
  \<^verbatim>\<open>while len(candidates) < current_candidates: ... if sum(candidate) == 0: continue\<close>
  \<open>draws k\<close> holds the random choices of the \<open>k\<close>-th call of \<open>_generate_candidate_counts\<close>.
  The loop has no bound of its own: \<open>None\<close> means that it never ends.
\<close>

partial_function (option) fill_candidates ::
  "real list \<Rightarrow> real \<Rightarrow> real list \<Rightarrow> nat \<Rightarrow> (nat \<Rightarrow> candidate_draw) \<Rightarrow> nat \<Rightarrow> real list list \<Rightarrow>
     (real list list \<times> nat) option" where
  "fill_candidates best_counts current_range direction_bias current_candidates draws k candidates =
     (if length candidates < current_candidates
      then
        (let candidate = generate_candidate_counts best_counts current_range direction_bias (draws k)
         in if fsum candidate = 0
            then fill_candidates best_counts current_range direction_bias current_candidates
                   draws (Suc k) candidates
            else fill_candidates best_counts current_range direction_bias current_candidates
                   draws (Suc k) (candidates @ [candidate]))
      else Some (candidates, k))"

declare fill_candidates.simps [code]

text \<open>Evaluating every candidate: \<open>results.append((prob, candidate))\<close>.\<close>

fun evaluate_candidates ::
  "real list list \<Rightarrow> int list \<Rightarrow> int list \<Rightarrow> nat \<Rightarrow> (nat \<Rightarrow> real) \<Rightarrow> nat \<Rightarrow>
     (real \<times> real list) list option" where
  "evaluate_candidates [] base_notoriety cheese_sequence simulations rolls pos = Some []"
| "evaluate_candidates (candidate # rest) base_notoriety cheese_sequence simulations rolls pos =
     (case simulate_probability candidate base_notoriety cheese_sequence simulations rolls pos of
        None \<Rightarrow> None
      | Some prob \<Rightarrow>
          (case evaluate_candidates rest base_notoriety cheese_sequence simulations rolls
                  (pos + simulations * length cheese_sequence) of
             None \<Rightarrow> None
           | Some results \<Rightarrow> Some ((prob, candidate) # results)))"

text \<open>
  \<open>_blend_top_candidates\<close>. Every candidate is a copy of \<open>best_counts\<close> with entries
  replaced, so all count vectors of \<open>results\<close> have the length of the first.
\<close>

definition blend_top_candidates :: "(real \<times> real list) list \<Rightarrow> real list" where
  "blend_top_candidates results =
     (if results = [] then []
      else
        let weights_sum = fsum (map fst results)
        in if weights_sum = 0 then snd (hd results)
           else
             let len = length (snd (hd results))
             in fold (\<lambda>(prob, counts) blended.
                        let weight = fdiv prob weights_sum
                        in map (\<lambda>idx. fadd (blended ! idx) (fmul (counts ! idx) weight)) [0..<len])
                  results (replicate len 0))"

definition update_direction_bias :: "real list \<Rightarrow> real list \<Rightarrow> real list \<Rightarrow> real list" where
  "update_direction_bias bias previous_counts new_counts =
     map (\<lambda>(idx, b).
            let prev = (if idx < length previous_counts then previous_counts ! idx else 0);
                new = (if idx < length new_counts then new_counts ! idx else 0);
                delta = fsub new prev
            in if delta = 0 then fmul b (round_double (9/10))
               else fadd (fmul (round_double (7/10)) b)
                         (fmul (round_double (3/10)) (if delta > 0 then 1 else - 1)))
       (enumerate 0 bias)"

text \<open>
  The state carried across iterations, with the positions reached in the two random
  streams.
\<close>

record optimizer_state =
  best_counts :: "real list"
  best_prob :: real
  direction_bias :: "real list"
  rolls_used :: nat
  draws_used :: nat

record optimizer_params =
  base_notoriety :: "int list"
  cheese_sequence :: "int list"
  dial_range :: nat
  iterations :: nat
  sims_per_distribution :: nat
  candidate_count :: nat

datatype 'a outcome = Returns 'a | Raises | Hangs

text \<open>The body of \<open>for iteration in range(iterations)\<close> in \<open>_run_optimization\<close>.\<close>

definition optimization_iteration ::
  "optimizer_params \<Rightarrow> (nat \<Rightarrow> real) \<Rightarrow> (nat \<Rightarrow> candidate_draw) \<Rightarrow> nat \<Rightarrow> optimizer_state \<Rightarrow>
     optimizer_state outcome" where
  "optimization_iteration params rolls draws iteration state =
     (let adaptive_factor =
            fadd (round_double (6/10))
              (fmul (round_double (4/10))
                 (fsub 1 (fdiv (real iteration) (real (max 1 (iterations params - 1))))));
          current_range = max 1 (fmul (real (dial_range params)) adaptive_factor);
          current_candidates = max 3 (nat \<lfloor>fmul (real (candidate_count params)) adaptive_factor\<rfloor>);
          run_length = sims_per_distribution params * length (cheese_sequence params)
      in case fill_candidates (best_counts state) current_range (direction_bias state)
                current_candidates draws (draws_used state)
                (systematic_candidates (best_counts state) current_range) of
           None \<Rightarrow> Hangs
         | Some (candidates, draws_used') \<Rightarrow>
             (case evaluate_candidates candidates (base_notoriety params) (cheese_sequence params)
                     (sims_per_distribution params) rolls (rolls_used state) of
                None \<Rightarrow> Raises
              | Some evaluated \<Rightarrow>
                  (let results = sort_key (\<lambda>item. - fst item)
                                   (evaluated @ [(best_prob state, best_counts state)]);
                       top_results = take 3 results;
                       blended_counts = blend_top_candidates top_results;
                       blend_pos = rolls_used state + length candidates * run_length
                   in case simulate_probability blended_counts (base_notoriety params)
                             (cheese_sequence params) (sims_per_distribution params) rolls blend_pos of
                        None \<Rightarrow> Raises
                      | Some blended_prob \<Rightarrow>
                          (let (new_prob, new_counts) =
                                 (if blended_prob \<ge> fst (hd top_results)
                                  then (blended_prob, blended_counts)
                                  else hd top_results)
                           in Returns \<lparr>best_counts = new_counts,
                                       best_prob = new_prob,
                                       direction_bias =
                                         update_direction_bias (direction_bias state)
                                           (best_counts state) new_counts,
                                       rolls_used = blend_pos + run_length,
                                       draws_used = draws_used'\<rparr>))))"

fun optimization_loop ::
  "optimizer_params \<Rightarrow> (nat \<Rightarrow> real) \<Rightarrow> (nat \<Rightarrow> candidate_draw) \<Rightarrow> nat list \<Rightarrow> optimizer_state \<Rightarrow>
     optimizer_state outcome" where
  "optimization_loop params rolls draws [] state = Returns state"
| "optimization_loop params rolls draws (iteration # rest) state =
     (case optimization_iteration params rolls draws iteration state of
        Returns state' \<Rightarrow> optimization_loop params rolls draws rest state'
      | Raises \<Rightarrow> Raises
      | Hangs \<Rightarrow> Hangs)"

text \<open>
  \<open>_run_optimization\<close> from the point where the inputs have been read: the notoriety
  vector, the spend sequence, the page counts and the four search parameters as
  \<open>_sanitize_string_var\<close> returns them. The result is the final state.
\<close>

definition run_optimization ::
  "int list \<Rightarrow> int list \<Rightarrow> nat list \<Rightarrow> nat \<Rightarrow> nat \<Rightarrow> nat \<Rightarrow> nat \<Rightarrow> (nat \<Rightarrow> real) \<Rightarrow>
     (nat \<Rightarrow> candidate_draw) \<Rightarrow> optimizer_state outcome" where
  "run_optimization notoriety sequence page_counts range_value iterations_value
       simulations_value candidates_value rolls draws =
     (let base_counts = (if sum_list page_counts = 0 then map (\<lambda>genre. 1) GENRES
                         else page_counts);
          params = \<lparr>base_notoriety = notoriety,
                    cheese_sequence = sequence,
                    dial_range = max 0 range_value,
                    iterations = max 1 iterations_value,
                    sims_per_distribution = max 1 simulations_value,
                    candidate_count = max 1 candidates_value\<rparr>;
          start_counts = map real base_counts
      in case simulate_probability start_counts notoriety sequence
                (sims_per_distribution params) rolls 0 of
           None \<Rightarrow> Raises
         | Some start_prob \<Rightarrow>
             optimization_loop params rolls draws [0..<iterations params]
               \<lparr>best_counts = start_counts,
                best_prob = start_prob,
                direction_bias = map (\<lambda>genre. 0) GENRES,
                rolls_used = sims_per_distribution params * length sequence,
                draws_used = 0\<rparr>)"

section \<open>Properties of double rounding\<close>

lemma pow2_nonneg_exp: "0 \<le> b \<Longrightarrow> (2::real) powi b = 2 ^ nat b"
  by (simp add: power_int_def)

lemma pow2_neg_exp: "0 \<le> k \<Longrightarrow> (2::real) powi (- k) = 1 / 2 ^ nat k"
  by (simp add: power_int_minus pow2_nonneg_exp field_simps)

lemma binary_exponent_bounds:
  assumes "0 < x"
  shows "2 powi binary_exponent x \<le> x \<and> x < 2 powi (binary_exponent x + 1)"
proof (cases "1 \<le> x")
  case True
  define n where "n = \<lfloor>x\<rfloor>"
  define b where "b = bitlen n"
  from True have n: "0 < n" by (simp add: n_def)
  from bitlen_bounds[OF n] have lo: "2 ^ nat (b - 1) \<le> n" and hi: "n < 2 ^ nat b"
    by (simp_all add: b_def)
  from n have b: "1 \<le> b" using bitlen_ge_iff_power[of 1 n] by (simp add: b_def)
  have e: "binary_exponent x = b - 1" using True by (simp add: binary_exponent_def b_def n_def)
  from lo have "real_of_int (2 ^ nat (b - 1)) \<le> real_of_int n" by (simp only: of_int_le_iff)
  also have "\<dots> \<le> x" by (simp add: n_def)
  finally have 1: "2 powi (b - 1) \<le> x" using b by (simp add: pow2_nonneg_exp)
  from hi have "n + 1 \<le> 2 ^ nat b" by simp
  then have "real_of_int (n + 1) \<le> real_of_int (2 ^ nat b)" by (simp only: of_int_le_iff)
  moreover have "x < real_of_int (n + 1)" by (simp add: n_def)
  ultimately have 2: "x < 2 powi b" using b by (simp add: pow2_nonneg_exp)
  from 1 2 e show ?thesis by simp
next
  case False
  with assms have x1: "x < 1" by simp
  define y where "y = 1 / x"
  from assms x1 have y1: "1 < y" by (simp add: y_def)
  define n where "n = \<lceil>y\<rceil> - 1"
  define k where "k = bitlen n"
  from y1 have n: "0 < n" unfolding n_def by linarith
  from bitlen_bounds[OF n] have lo: "2 ^ nat (k - 1) \<le> n" and hi: "n < 2 ^ nat k"
    by (simp_all add: k_def)
  from n have k: "1 \<le> k" using bitlen_ge_iff_power[of 1 n] by (simp add: k_def)
  have e: "binary_exponent x = - k" using False by (simp add: binary_exponent_def k_def n_def y_def)
  from hi have "n + 1 \<le> 2 ^ nat k" by simp
  then have "real_of_int (n + 1) \<le> real_of_int (2 ^ nat k)" by (simp only: of_int_le_iff)
  moreover have "y \<le> real_of_int (n + 1)" unfolding n_def by simp
  ultimately have "y \<le> 2 ^ nat k" by simp
  with assms have "1 / 2 ^ nat k \<le> x"
    unfolding y_def by (simp add: field_simps)
  with k have 1: "2 powi (- k) \<le> x" by (simp add: pow2_neg_exp)
  from lo have "real_of_int (2 ^ nat (k - 1)) \<le> real_of_int n" by (simp only: of_int_le_iff)
  also have "\<dots> < y" unfolding n_def by linarith
  finally have "2 ^ nat (k - 1) < y" by simp
  with assms have "x < 1 / 2 ^ nat (k - 1)"
    unfolding y_def by (simp add: field_simps)
  moreover have "(2::real) powi (- k + 1) = 1 / 2 ^ nat (k - 1)"
    using pow2_neg_exp[of "k - 1"] k by simp
  ultimately have 2: "x < 2 powi (- k + 1)" by simp
  from 1 2 e show ?thesis by simp
qed

lemma pow2_exponent_unique:
  assumes "(2::real) powi e \<le> x" "x < 2 powi (e + 1)" "2 powi e' \<le> x" "x < 2 powi (e' + 1)"
  shows "e = e'"
proof (rule ccontr)
  assume "e \<noteq> e'"
  then consider "e + 1 \<le> e'" | "e' + 1 \<le> e" by linarith
  then show False
  proof cases
    case 1
    then have "(2::real) powi (e + 1) \<le> 2 powi e'" by (intro power_int_increasing) simp_all
    with assms show False by simp
  next
    case 2
    then have "(2::real) powi (e' + 1) \<le> 2 powi e" by (intro power_int_increasing) simp_all
    with assms show False by simp
  qed
qed

lemma binary_exponent_eqI:
  assumes "(2::real) powi e \<le> x" "x < 2 powi (e + 1)"
  shows "binary_exponent x = e"
proof -
  have "0 < (2::real) powi e" by simp
  with assms have "0 < x" by linarith
  from binary_exponent_bounds[OF this] assms show ?thesis
    using pow2_exponent_unique by blast
qed

lemma binary_exponent_mono:
  assumes "0 < x" "x \<le> y"
  shows "binary_exponent x \<le> binary_exponent y"
proof (rule ccontr)
  assume "\<not> binary_exponent x \<le> binary_exponent y"
  then have "binary_exponent y + 1 \<le> binary_exponent x" by simp
  then have "(2::real) powi (binary_exponent y + 1) \<le> 2 powi binary_exponent x"
    by (intro power_int_increasing) simp_all
  moreover from assms have "0 < y" by simp
  ultimately show False
    using binary_exponent_bounds[OF assms(1)] binary_exponent_bounds[OF \<open>0 < y\<close>] assms(2) by linarith
qed

lemma round_half_even_of_int [simp]: "round_half_even (of_int n) = n"
  by (simp add: round_half_even_def)

lemma round_half_even_mono:
  assumes "x \<le> y"
  shows "round_half_even x \<le> round_half_even y"
proof (cases "\<lfloor>x\<rfloor> = \<lfloor>y\<rfloor>")
  case True
  with assms show ?thesis
    unfolding round_half_even_def Let_def by auto
next
  case False
  with assms have "\<lfloor>x\<rfloor> + 1 \<le> \<lfloor>y\<rfloor>" using floor_mono[OF assms] by linarith
  moreover have "round_half_even x \<le> \<lfloor>x\<rfloor> + 1"
    unfolding round_half_even_def Let_def by auto
  moreover have "\<lfloor>y\<rfloor> \<le> round_half_even y"
    unfolding round_half_even_def Let_def by auto
  ultimately show ?thesis by linarith
qed

lemma round_double_pos:
  "0 < x \<Longrightarrow> round_double x =
     of_int (round_half_even (x / 2 powi ulp_exponent x)) * 2 powi ulp_exponent x"
  by (simp add: round_double_def)

lemma pow2_quotient: "(2::real) powi a / 2 powi b = 2 powi (a - b)"
  by (simp add: power_int_diff)

lemma pow2_product: "(2::real) powi a * 2 powi b = 2 powi (a + b)"
  by (simp add: power_int_add)

lemma round_half_even_nonneg: "0 \<le> x \<Longrightarrow> 0 \<le> round_half_even x"
  using round_half_even_mono[of 0 x] by (simp add: round_half_even_def)

lemma round_double_nonneg:
  assumes "0 \<le> x"
  shows "0 \<le> round_double x"
proof (cases "x = 0")
  case True
  then show ?thesis by (simp add: round_double_def)
next
  case False
  with assms have x: "0 < x" by simp
  then have "0 \<le> x / 2 powi ulp_exponent x" by simp
  from round_half_even_nonneg[OF this] show ?thesis
    by (simp add: round_double_pos[OF x])
qed

text \<open>A positive number below a power of two rounds to at most that power.\<close>

lemma round_double_le_pow2:
  assumes "0 < x" "x \<le> 2 powi E" "ulp_exponent x \<le> E"
  shows "round_double x \<le> 2 powi E"
proof -
  define q where "q = ulp_exponent x"
  have "x / 2 powi q \<le> 2 powi E / 2 powi q"
    using assms(2) by (simp add: divide_right_mono)
  also have "\<dots> = of_int (2 ^ nat (E - q))"
    using assms(3) by (simp add: pow2_quotient pow2_nonneg_exp q_def)
  finally have "round_half_even (x / 2 powi q) \<le> round_half_even (of_int (2 ^ nat (E - q)))"
    by (rule round_half_even_mono)
  then have "round_half_even (x / 2 powi q) \<le> 2 ^ nat (E - q)"
    by (simp only: round_half_even_of_int)
  then have "real_of_int (round_half_even (x / 2 powi q)) \<le> real_of_int (2 ^ nat (E - q))"
    by (simp only: of_int_le_iff)
  also have "real_of_int (2 ^ nat (E - q)) = 2 powi (E - q)"
    using assms(3) by (simp add: pow2_nonneg_exp q_def)
  finally have "real_of_int (round_half_even (x / 2 powi q)) * 2 powi q \<le> 2 powi (E - q) * 2 powi q"
    by (simp add: mult_right_mono)
  then show ?thesis
    by (simp add: round_double_pos[OF assms(1)] pow2_product q_def)
qed

text \<open>A number of the normal range rounds to at least the power of two below it.\<close>

lemma pow2_le_round_double:
  assumes "0 < x" "- 1022 \<le> binary_exponent x"
  shows "2 powi binary_exponent x \<le> round_double x"
proof -
  define e where "e = binary_exponent x"
  define q where "q = ulp_exponent x"
  from assms(2) have q: "q = e - 52" by (simp add: q_def e_def ulp_exponent_def)
  from binary_exponent_bounds[OF assms(1)] have "2 powi e \<le> x" by (simp add: e_def)
  then have "2 powi e / 2 powi q \<le> x / 2 powi q"
    by (simp add: divide_right_mono)
  moreover have "(2::real) powi e / 2 powi q = of_int (2 ^ 52)"
    by (simp add: pow2_quotient q)
  ultimately have "of_int (2 ^ 52) \<le> x / 2 powi q" by simp
  then have "round_half_even (of_int (2 ^ 52)) \<le> round_half_even (x / 2 powi q)"
    by (rule round_half_even_mono)
  then have "2 ^ 52 \<le> round_half_even (x / 2 powi q)"
    by (simp only: round_half_even_of_int)
  then have "real_of_int (2 ^ 52) \<le> real_of_int (round_half_even (x / 2 powi q))"
    by (simp only: of_int_le_iff)
  then have a: "real_of_int (2 ^ 52) * 2 powi q \<le> real_of_int (round_half_even (x / 2 powi q)) * 2 powi q"
    by (simp add: mult_right_mono)
  have b: "real_of_int (2 ^ 52) * 2 powi q = 2 powi e"
  proof -
    have "real_of_int (2 ^ 52) = 2 powi 52" by simp
    then show ?thesis by (simp only: pow2_product q) simp
  qed
  have c: "round_double x = real_of_int (round_half_even (x / 2 powi q)) * 2 powi q"
    by (simp only: round_double_pos[OF assms(1)] q_def)
  from a show ?thesis
    unfolding b c e_def .
qed

lemma round_double_mono_pos:
  assumes "0 < x" "x \<le> y"
  shows "round_double x \<le> round_double y"
proof -
  from assms have y: "0 < y" by simp
  define ex where "ex = binary_exponent x"
  define ey where "ey = binary_exponent y"
  from binary_exponent_mono[OF assms] have exy: "ex \<le> ey" by (simp add: ex_def ey_def)
  show ?thesis
  proof (cases "ulp_exponent x = ulp_exponent y")
    case True
    from assms(2) have "x / 2 powi ulp_exponent y \<le> y / 2 powi ulp_exponent y"
      by (simp add: divide_right_mono)
    from round_half_even_mono[OF this]
    have "real_of_int (round_half_even (x / 2 powi ulp_exponent y)) * 2 powi ulp_exponent y
            \<le> real_of_int (round_half_even (y / 2 powi ulp_exponent y)) * 2 powi ulp_exponent y"
      by (simp add: mult_right_mono)
    then show ?thesis
      by (simp add: round_double_pos[OF assms(1)] round_double_pos[OF y] True)
  next
    case False
    with exy have lt: "ulp_exponent x < ulp_exponent y"
      by (auto simp: ulp_exponent_def ex_def ey_def max_def split: if_splits)
    then have ey: "- 1022 < ey" "max ex (- 1022) < ey"
      by (auto simp: ulp_exponent_def ex_def ey_def max_def split: if_splits)
    then have "ex + 1 \<le> ey" by simp
    then have "(2::real) powi (ex + 1) \<le> 2 powi ey" by (intro power_int_increasing) simp_all
    with binary_exponent_bounds[OF assms(1)] have "x \<le> 2 powi ey" by (simp add: ex_def)
    moreover from ey have "ulp_exponent x \<le> ey" by (simp add: ulp_exponent_def ex_def)
    ultimately have "round_double x \<le> 2 powi ey"
      using round_double_le_pow2[OF assms(1)] by blast
    also from ey have "2 powi ey \<le> round_double y"
      using pow2_le_round_double[OF y] by (simp add: ey_def)
    finally show ?thesis .
  qed
qed

lemma round_double_mono:
  assumes "0 \<le> x" "x \<le> y"
  shows "round_double x \<le> round_double y"
proof (cases "x = 0")
  case True
  with assms round_double_nonneg[of y] show ?thesis by (simp add: round_double_def)
next
  case False
  with assms round_double_mono_pos show ?thesis by simp
qed

lemma binary_exponent_pow2 [simp]: "binary_exponent (2 powi e) = e"
  by (rule binary_exponent_eqI) (simp_all add: power_int_strict_increasing)

lemma round_double_idem:
  assumes "0 \<le> x"
  shows "round_double (round_double x) = round_double x"
proof (cases "x = 0")
  case True
  then show ?thesis by (simp add: round_double_def)
next
  case False
  with assms have x: "0 < x" by simp
  define e where "e = binary_exponent x"
  define E where "E = max e (- 1022)"
  define q where "q = E - 52"
  define m where "m = round_half_even (x / 2 powi q)"
  define r where "r = real_of_int m * 2 powi q"
  have qu: "ulp_exponent x = q" by (simp add: q_def E_def e_def ulp_exponent_def)
  have rd: "round_double x = r"
    by (simp add: round_double_pos[OF x] qu r_def m_def)
  have E: "- 1022 \<le> E" "e \<le> E" by (simp_all add: E_def)
  have m0: "0 \<le> m" unfolding m_def by (rule round_half_even_nonneg) (use x in simp)
  have mhi: "m \<le> 2 ^ 53"
  proof -
    from E have "(2::real) powi (e + 1) \<le> 2 powi (E + 1)" by (intro power_int_increasing) simp_all
    with binary_exponent_bounds[OF x] have "x \<le> 2 powi (E + 1)" by (simp add: e_def)
    then have "x / 2 powi q \<le> 2 powi (E + 1) / 2 powi q" by (simp add: divide_right_mono)
    also have "\<dots> = of_int (2 ^ 53)" by (simp add: pow2_quotient q_def)
    finally have "round_half_even (x / 2 powi q) \<le> round_half_even (of_int (2 ^ 53))"
      by (rule round_half_even_mono)
    then show ?thesis by (simp only: round_half_even_of_int m_def)
  qed
  have p53: "real_of_int (2 ^ 53) * 2 powi q = 2 powi (E + 1)"
  proof -
    have "real_of_int (2 ^ 53) = 2 powi 53" by simp
    moreover have "53 + q = E + 1" by (simp add: q_def)
    ultimately show ?thesis by (simp only: pow2_product)
  qed
  show ?thesis
  proof (cases "m = 0")
    case True
    then have "r = 0" by (simp add: r_def)
    then show ?thesis unfolding rd by (simp add: round_double_def)
  next
    case m1: False
    with m0 have mpos: "0 < m" by simp
    then have rpos: "0 < r" by (simp add: r_def)
    show ?thesis
    proof (cases "m = 2 ^ 53")
      case True
      then have r: "r = 2 powi (E + 1)" using p53 by (simp add: r_def)
      have "ulp_exponent r = q + 1" using E by (simp add: r ulp_exponent_def q_def)
      moreover have "r / 2 powi (q + 1) = of_int (2 ^ 52)"
        by (simp add: r pow2_quotient q_def)
      moreover have "real_of_int (2 ^ 52) * 2 powi (q + 1) = r"
      proof -
        have "real_of_int (2 ^ 52) = 2 powi 52" by simp
        moreover have "52 + (q + 1) = E + 1" by (simp add: q_def)
        ultimately show ?thesis by (simp only: pow2_product r)
      qed
      ultimately have "round_double r = r"
        by (simp only: round_double_pos[OF rpos] round_half_even_of_int)
      then show ?thesis by (simp add: rd)
    next
      case False
      with mhi have "m + 1 \<le> 2 ^ 53" by simp
      then have "m < 2 ^ 53" by simp
      then have "real_of_int m < real_of_int (2 ^ 53)" by (simp only: of_int_less_iff)
      then have "real_of_int m * 2 powi q < real_of_int (2 ^ 53) * 2 powi q"
        by (simp add: mult_strict_right_mono)
      then have rlt: "r < 2 powi (E + 1)" unfolding p53 r_def .
      have up: "binary_exponent r \<le> E"
      proof (rule ccontr)
        assume "\<not> binary_exponent r \<le> E"
        then have "E + 1 \<le> binary_exponent r" by simp
        then have "(2::real) powi (E + 1) \<le> 2 powi binary_exponent r"
          by (intro power_int_increasing) simp_all
        with binary_exponent_bounds[OF rpos] rlt show False by linarith
      qed
      have "max (binary_exponent r) (- 1022) = E"
      proof (cases "E = - 1022")
        case True
        with up show ?thesis by simp
      next
        case False
        with E have eE: "E = e" "- 1022 \<le> e" by (simp_all add: E_def max_def split: if_splits)
        from pow2_le_round_double[OF x] eE have "2 powi e \<le> r" by (simp add: rd e_def)
        from binary_exponent_mono[OF _ this] have "e \<le> binary_exponent r" by simp
        with up eE show ?thesis by simp
      qed
      then have "ulp_exponent r = q" by (simp add: ulp_exponent_def q_def)
      moreover have "r / 2 powi q = of_int m" by (simp add: r_def)
      ultimately have "round_double r = real_of_int m * 2 powi q"
        by (simp only: round_double_pos[OF rpos] round_half_even_of_int)
      then have "round_double r = r" by (simp only: r_def)
      then show ?thesis by (simp add: rd)
    qed
  qed
qed

lemma fadd_increases:
  assumes "0 \<le> x" "0 \<le> w"
  shows "round_double x \<le> fadd (round_double x) w"
proof -
  have "round_double x \<le> round_double x + w" using assms by simp
  from round_double_mono[OF round_double_nonneg[OF assms(1)] this]
  show ?thesis by (simp add: fadd_def round_double_idem[OF assms(1)])
qed

lemma round_double_0 [simp]: "round_double 0 = 0"
  by (simp add: round_double_def)

lemma round_double_1 [simp]: "round_double 1 = 1"
  by code_simp

section \<open>Properties of the Weighted Selector\<close>

lemma list_of_length_5:
  "length xs = 5 \<Longrightarrow> \<exists>a b c d e. xs = [a, b, c, d, e]"
  by (simp add: eval_nat_numeral length_Suc_conv) blast

lemma running_sums_sorted:
  assumes "\<forall>g\<in>set gs. \<exists>w. weights g = Some w \<and> 0 \<le> w"
    and "0 \<le> running" and "round_double running = running"
  shows "\<exists>cumulative. running_sums weights running gs = Some cumulative \<and>
           length cumulative = length gs \<and> sorted (running # cumulative)"
  using assms
proof (induction gs arbitrary: running)
  case Nil
  then show ?case by simp
next
  case (Cons g gs)
  from Cons.prems(1) obtain w where w: "weights g = Some w" "0 \<le> w" by auto
  define r' where "r' = fadd running w"
  from Cons.prems(2) w(2) have nn: "0 \<le> running + w" by simp
  have r1: "0 \<le> r'" unfolding r'_def fadd_def by (rule round_double_nonneg[OF nn])
  have r2: "round_double r' = r'" unfolding r'_def fadd_def by (rule round_double_idem[OF nn])
  have r3: "running \<le> r'"
    using fadd_increases[OF Cons.prems(2) w(2)] Cons.prems(3) by (simp add: r'_def)
  from Cons.prems(1) have "\<forall>g\<in>set gs. \<exists>w. weights g = Some w \<and> 0 \<le> w" by simp
  from Cons.IH[OF this r1 r2] obtain cumulative where
    c: "running_sums weights r' gs = Some cumulative" "length cumulative = length gs"
       "sorted (r' # cumulative)" by blast
  from c r3 w show ?case
    by (auto simp: r'_def[symmetric])
qed

lemma distribution_weights:
  assumes "get_genre_weight_distribution pages = Some weights"
  shows "\<forall>g\<in>set GENRES. \<exists>w. weights g = Some w \<and> 0 \<le> w"
proof -
  from assms have len: "length GENRES \<le> length pages"
    by (auto simp: get_genre_weight_distribution_def split: if_splits)
  then have "length (take (length GENRES) pages) = 5" by (simp add: GENRES_def)
  from list_of_length_5[OF this] obtain a b c d e
    where t: "take (length GENRES) pages = [a, b, c, d, e]"
    by blast
  have nn: "0 \<le> fdiv x y" if "0 \<le> x" "0 \<le> y" for x y
    unfolding fdiv_def using that by (intro round_double_nonneg) simp
  from assms len have w: "weights =
      (if sum_list [a, b, c, d, e] = 0
       then map_of (map (\<lambda>genre. (genre, fdiv 1 (real (length GENRES)))) GENRES)
       else map_of (zip GENRES (map (\<lambda>value. fdiv (real value) (real (sum_list [a, b, c, d, e])))
                                  [a, b, c, d, e])))"
    by (auto simp: get_genre_weight_distribution_def Let_def t split: if_splits)
  show ?thesis
    unfolding w by (simp add: GENRES_def nn)
qed

lemma weights_from_counts_nonneg:
  assumes nn: "\<forall>c\<in>set counts. 0 \<le> c"
    and len: "length GENRES \<le> length counts"
  shows "\<exists>weights. weights_from_counts counts = Some weights \<and>
           (\<forall>g\<in>set GENRES. \<exists>w. weights g = Some w \<and> 0 \<le> w)"
proof -
  from len have "length (take (length GENRES) counts) = 5" by (simp add: GENRES_def)
  from list_of_length_5[OF this] obtain a b c d e
    where t: "take (length GENRES) counts = [a, b, c, d, e]"
    by blast
  have "set (take (length GENRES) counts) \<subseteq> set counts" by (rule set_take_subset)
  with nn t have pos: "0 \<le> a" "0 \<le> b" "0 \<le> c" "0 \<le> d" "0 \<le> e" by auto
  have q: "0 \<le> fdiv x y" if "0 \<le> x" "0 \<le> y" for x y
    unfolding fdiv_def using that by (intro round_double_nonneg) simp
  show ?thesis
  proof (cases "fsum counts \<le> 0")
    case True
    then show ?thesis
      by (simp add: weights_from_counts_def GENRES_def q)
  next
    case False
    then have "0 \<le> fsum counts" by simp
    with False len pos show ?thesis
      by (simp add: weights_from_counts_def Let_def t q) (simp add: GENRES_def q)
  qed
qed

text \<open>
  Claim C2, amended. For every weight distribution that gives each genre a non-negative
  weight (normalized or not, whatever built it), the table of \<open>_prepare_weight_cumulative\<close>
  has one entry per genre, its last entry is exactly 1, and the entries before the last are
  non-decreasing; the whole table is non-decreasing exactly when the running sum before the
  last genre is at most 1. The distribution of \<open>get_genre_weight_distribution\<close> is such a
  distribution for every vector of page counts (normalized weights, or the uniform fallback
  when the total is 0), so the allocator's table has the same properties. By
  \<open>weights_from_counts_nonneg\<close> the optimizer's distributions of non-negative count vectors
  are such distributions as well.
\<close>

theorem cumulative_table_invariants:
  "(\<forall>weights. (\<forall>g\<in>set GENRES. \<exists>w. weights g = Some w \<and> 0 \<le> w) \<longrightarrow>
      (\<exists>table. prepare_weight_cumulative weights = Some table \<and>
         length table = length GENRES \<and> last table = 1 \<and> sorted (butlast table) \<and>
         sorted table = (table ! (length table - 2) \<le> 1))) \<and>
   (\<forall>genre_page_vars. length GENRES \<le> length genre_page_vars \<longrightarrow>
      (\<exists>weights table. get_genre_weight_distribution genre_page_vars = Some weights \<and>
         (\<forall>g\<in>set GENRES. \<exists>w. weights g = Some w \<and> 0 \<le> w) \<and>
         allocator_weight_cumulative genre_page_vars = Some table \<and>
         length table = length GENRES \<and> last table = 1 \<and> sorted (butlast table) \<and>
         sorted table = (table ! (length table - 2) \<le> 1)))"
proof -
  have general: "\<exists>table. prepare_weight_cumulative weights = Some table \<and>
         length table = length GENRES \<and> last table = 1 \<and> sorted (butlast table) \<and>
         sorted table = (table ! (length table - 2) \<le> 1)"
    if nn: "\<forall>g\<in>set GENRES. \<exists>w. weights g = Some w \<and> 0 \<le> w" for weights
  proof -
    from running_sums_sorted[OF nn, of 0] obtain cumulative where
      c: "running_sums weights 0 GENRES = Some cumulative" "length cumulative = length GENRES"
         "sorted (0 # cumulative)" by auto
    define table where "table = cumulative[length cumulative - 1 := 1]"
    from c(2) have l5: "length cumulative = 5" by (simp add: GENRES_def)
    from list_of_length_5[OF this] obtain a b c' d e where cu: "cumulative = [a, b, c', d, e]"
      by blast
    have tb: "table = [a, b, c', d, 1]" by (simp add: table_def cu)
    from c(3) have s: "a \<le> b" "b \<le> c'" "c' \<le> d" by (simp_all add: cu)
    have "prepare_weight_cumulative weights = Some table"
      by (simp add: prepare_weight_cumulative_def c(1) table_def)
    moreover have "length table = length GENRES" by (simp add: tb GENRES_def)
    moreover have "last table = 1" by (simp add: tb)
    moreover have "sorted (butlast table)" using s by (simp add: tb)
    moreover have "sorted table = (table ! (length table - 2) \<le> 1)"
      using s by (auto simp: tb)
    ultimately show ?thesis by blast
  qed
  have allocator: "\<exists>weights table. get_genre_weight_distribution genre_page_vars = Some weights \<and>
         (\<forall>g\<in>set GENRES. \<exists>w. weights g = Some w \<and> 0 \<le> w) \<and>
         allocator_weight_cumulative genre_page_vars = Some table \<and>
         length table = length GENRES \<and> last table = 1 \<and> sorted (butlast table) \<and>
         sorted table = (table ! (length table - 2) \<le> 1)"
    if len: "length GENRES \<le> length genre_page_vars" for genre_page_vars
  proof -
    from len have "\<exists>weights. get_genre_weight_distribution genre_page_vars = Some weights"
      by (simp add: get_genre_weight_distribution_def Let_def)
    then obtain weights where w: "get_genre_weight_distribution genre_page_vars = Some weights"
      by blast
    note nn = distribution_weights[OF w]
    from general[OF nn] obtain table where
      t: "prepare_weight_cumulative weights = Some table"
         "length table = length GENRES" "last table = 1" "sorted (butlast table)"
         "sorted table = (table ! (length table - 2) \<le> 1)"
      by blast
    have "allocator_weight_cumulative genre_page_vars = Some table"
      by (simp add: allocator_weight_cumulative_def w t(1))
    with w nn t show ?thesis by blast
  qed
  from general allocator show ?thesis by blast
qed

lemma float_steps_0_6_23_1_0:
  "fdiv 0 30 = 0"
  "fdiv 6 30 = 3602879701896397 / 18014398509481984"
  "fdiv 23 30 = 6905519428634761 / 9007199254740992"
  "fdiv 1 30 = 4803839602528529 / 144115188075855872"
  "fadd 0 0 = 0"
  "fadd 0 (3602879701896397 / 18014398509481984) = 3602879701896397 / 18014398509481984"
  "fadd (3602879701896397 / 18014398509481984) (6905519428634761 / 9007199254740992)
     = 544184954973935 / 562949953421312"
  "fadd (544184954973935 / 562949953421312) (4803839602528529 / 144115188075855872)
     = 4503599627370497 / 4503599627370496"
  "fadd (4503599627370497 / 4503599627370496) 0 = 4503599627370497 / 4503599627370496"
  by code_simp+

text \<open>
  Claim C2, as stated, fails in double arithmetic: for the page counts 0, 6, 23, 1, 0 the
  rounded running sum reaches \<open>1 + 1 / 2 ^ 52\<close> before the last entry is overwritten with 1.
\<close>

theorem cumulative_table_sorted_counterexample:
  "allocator_weight_cumulative [0, 6, 23, 1, 0] =
     Some [0, 3602879701896397 / 18014398509481984, 544184954973935 / 562949953421312,
           4503599627370497 / 4503599627370496, 1] \<and>
   \<not> sorted [0, 3602879701896397 / 18014398509481984, 544184954973935 / 562949953421312,
           4503599627370497 / 4503599627370496, 1 :: real]"
  by (simp add: allocator_weight_cumulative_def get_genre_weight_distribution_def
        prepare_weight_cumulative_def GENRES_def float_steps_0_6_23_1_0)

lemma float_steps_uniform:
  "fdiv 1 5 = 3602879701896397 / 18014398509481984"
  "fadd 0 (3602879701896397 / 18014398509481984) = 3602879701896397 / 18014398509481984"
  "fadd (3602879701896397 / 18014398509481984) (3602879701896397 / 18014398509481984)
     = 3602879701896397 / 9007199254740992"
  "fadd (3602879701896397 / 9007199254740992) (3602879701896397 / 18014398509481984)
     = 1351079888211149 / 2251799813685248"
  "fadd (1351079888211149 / 2251799813685248) (3602879701896397 / 18014398509481984)
     = 3602879701896397 / 4503599627370496"
  "fadd (3602879701896397 / 4503599627370496) (3602879701896397 / 18014398509481984) = 1"
  by code_simp+

lemma float_steps_3_1_4_1_5:
  "fdiv 3 14 = 7720456504063707 / 36028797018963968"
  "fdiv 1 14 = 2573485501354569 / 36028797018963968"
  "fdiv 4 14 = 2573485501354569 / 9007199254740992"
  "fdiv 5 14 = 6433713753386423 / 18014398509481984"
  "fadd 0 (7720456504063707 / 36028797018963968) = 7720456504063707 / 36028797018963968"
  "fadd (7720456504063707 / 36028797018963968) (2573485501354569 / 36028797018963968)
     = 2573485501354569 / 9007199254740992"
  "fadd (2573485501354569 / 9007199254740992) (2573485501354569 / 9007199254740992)
     = 2573485501354569 / 4503599627370496"
  "fadd (2573485501354569 / 4503599627370496) (2573485501354569 / 36028797018963968)
     = 1447585594511945 / 2251799813685248"
  "fadd (1447585594511945 / 2251799813685248) (6433713753386423 / 18014398509481984) = 1"
  by code_simp+

lemma float_steps_halves:
  "fadd 0 (1 / 2) = 1 / 2"
  "fadd (1 / 2) (1 / 4) = 3 / 4"
  "fadd (3 / 4) (1 / 4) = 1"
  "fadd 1 0 = 1"
  by code_simp+

text \<open>
  The theorem at the distribution 1/2, 1/4, 1/4, 0, 0, at the normalized distribution of
  the page counts 3, 1, 4, 1, 5, and at the uniform fallback of the page counts 0, 0, 0, 0, 0.
\<close>

theorem cumulative_table_invariants_witness:
  "prepare_weight_cumulative
     [Romance \<mapsto> 1 / 2, Adventure \<mapsto> 1 / 4, Comedy \<mapsto> 1 / 4, Tragedy \<mapsto> 0, Suspense \<mapsto> 0] =
     Some [1 / 2, 3 / 4, 1, 1, 1] \<and>
   sorted [1 / 2, 3 / 4, 1, 1, 1 :: real] \<and>
   allocator_weight_cumulative [3, 1, 4, 1, 5] =
     Some [7720456504063707 / 36028797018963968, 2573485501354569 / 9007199254740992,
           2573485501354569 / 4503599627370496, 1447585594511945 / 2251799813685248, 1] \<and>
   sorted [7720456504063707 / 36028797018963968, 2573485501354569 / 9007199254740992,
           2573485501354569 / 4503599627370496, 1447585594511945 / 2251799813685248, 1 :: real] \<and>
   allocator_weight_cumulative [0, 0, 0, 0, 0] =
     Some [3602879701896397 / 18014398509481984, 3602879701896397 / 9007199254740992,
           1351079888211149 / 2251799813685248, 3602879701896397 / 4503599627370496, 1] \<and>
   sorted [3602879701896397 / 18014398509481984, 3602879701896397 / 9007199254740992,
           1351079888211149 / 2251799813685248, 3602879701896397 / 4503599627370496, 1 :: real]"
proof -
  let ?w = "[Romance \<mapsto> 1 / 2, Adventure \<mapsto> 1 / 4, Comedy \<mapsto> 1 / 4, Tragedy \<mapsto> 0,
             Suspense \<mapsto> 0 :: real]"
  let ?s = "[1 / 2, 3 / 4, 1, 1, 1 :: real]"
  let ?t = "[7720456504063707 / 36028797018963968, 2573485501354569 / 9007199254740992,
           2573485501354569 / 4503599627370496, 1447585594511945 / 2251799813685248, 1 :: real]"
  let ?u = "[3602879701896397 / 18014398509481984, 3602879701896397 / 9007199254740992,
           1351079888211149 / 2251799813685248, 3602879701896397 / 4503599627370496, 1 :: real]"
  note general = cumulative_table_invariants[THEN conjunct1, THEN spec, THEN mp]
  note allocator = cumulative_table_invariants[THEN conjunct2, THEN spec, THEN mp]
  have hw: "\<forall>g\<in>set GENRES. \<exists>w. ?w g = Some w \<and> 0 \<le> w"
    apply (simp add: GENRES_def)
    apply (rule conjI)
     apply (rule exI[of _ "1 / 2"], simp)
    apply (rule exI[of _ "1 / 4"], simp)
    done
  have es: "prepare_weight_cumulative ?w = Some ?s"
    by (simp add: prepare_weight_cumulative_def GENRES_def float_steps_halves)
  from general[OF hw] obtain table where
    t: "prepare_weight_cumulative ?w = Some table"
       "sorted table = (table ! (length table - 2) \<le> 1)"
    by blast
  from t(1) es have "table = ?s" by simp
  with t(2) have ss: "sorted ?s" by simp
  have hp: "length GENRES \<le> length [3, 1, 4, 1, 5 :: nat]" by (simp add: GENRES_def)
  have et: "allocator_weight_cumulative [3, 1, 4, 1, 5] = Some ?t"
    by (simp add: allocator_weight_cumulative_def get_genre_weight_distribution_def
          prepare_weight_cumulative_def GENRES_def float_steps_3_1_4_1_5)
  from allocator[OF hp] obtain table' where
    t': "allocator_weight_cumulative [3, 1, 4, 1, 5] = Some table'"
        "sorted table' = (table' ! (length table' - 2) \<le> 1)"
    by blast
  from t'(1) et have "table' = ?t" by simp
  with t'(2) have st: "sorted ?t" by simp
  have hz: "length GENRES \<le> length [0, 0, 0, 0, 0 :: nat]" by (simp add: GENRES_def)
  have eu: "allocator_weight_cumulative [0, 0, 0, 0, 0] = Some ?u"
    by (simp add: allocator_weight_cumulative_def get_genre_weight_distribution_def
          prepare_weight_cumulative_def GENRES_def float_steps_uniform)
  from allocator[OF hz] obtain table'' where
    t'': "allocator_weight_cumulative [0, 0, 0, 0, 0] = Some table''"
         "sorted table'' = (table'' ! (length table'' - 2) \<le> 1)"
    by blast
  from t''(1) eu have "table'' = ?u" by simp
  with t''(2) have su: "sorted ?u" by simp
  from es ss et st eu su show ?thesis by blast
qed

lemma fadd_exact [simp]: "fadd 0 0 = 0" "fadd 0 1 = 1" "fadd 1 0 = 1"
  by (simp_all add: fadd_def)




section \<open>Properties of the Step Engine\<close>

lemma first_threshold_bounds:
  "first_threshold roll n tbl = Some idx \<Longrightarrow> n \<le> idx \<and> idx < n + length tbl"
  by (induction tbl arbitrary: n) (auto split: if_splits, fastforce+)

lemma select_genre_index_range:
  assumes "cw \<noteq> []"
  shows "0 \<le> select_genre_index cw roll \<and> select_genre_index cw roll < int (length cw)"
proof (cases "first_threshold roll 0 cw")
  case None
  with assms show ?thesis by (simp add: select_genre_index_def)
next
  case (Some idx)
  from first_threshold_bounds[OF Some] Some show ?thesis
    by (simp add: select_genre_index_def)
qed

lemma decay_others_length [simp]: "length (decay_others idx values) = length values"
  by (simp add: decay_others_def)

lemma decay_others_nth:
  "i < length values \<Longrightarrow>
   decay_others idx values ! i =
     (if int i \<noteq> idx \<and> values ! i > 1 then values ! i - 1 else values ! i)"
  by (simp add: decay_others_def nth_enumerate_eq)

lemma apply_hunt_step_Some:
  assumes "apply_hunt_step values cheese cw roll = Some values'"
  obtains k where "py_index values (select_genre_index cw roll) = Some k"
    and "k < length values"
    and "values' = decay_others (select_genre_index cw roll)
                     (values[k := min NOTORIETY_CAP (values ! k + cheese)])"
proof -
  from assms obtain k where k: "py_index values (select_genre_index cw roll) = Some k"
    and v: "values' = decay_others (select_genre_index cw roll)
                     (values[k := min NOTORIETY_CAP (values ! k + cheese)])"
    by (auto simp: apply_hunt_step_def Let_def split: option.splits)
  from k have "k < length values"
    by (auto simp: py_index_def Let_def split: if_splits)
  with k v that show thesis by blast
qed

lemma apply_hunt_step_total:
  assumes "cw \<noteq> []" "length cw = length values"
  shows "\<exists>values'. apply_hunt_step values cheese cw roll = Some values'"
proof -
  from select_genre_index_range[OF assms(1), of roll] assms(2)
  have "py_index values (select_genre_index cw roll) \<noteq> None"
    by (simp add: py_index_def Let_def)
  then show ?thesis
    by (auto simp: apply_hunt_step_def Let_def)
qed

lemma apply_hunt_step_nth:
  assumes "apply_hunt_step values cheese cw roll = Some values'"
    and "py_index values (select_genre_index cw roll) = Some k"
    and "i < length values"
  shows "values' ! i =
     (let v = (if i = k then min NOTORIETY_CAP (values ! i + cheese) else values ! i)
      in if int i \<noteq> select_genre_index cw roll \<and> v > 1 then v - 1 else v)"
proof -
  from assms(1) obtain k' where k': "py_index values (select_genre_index cw roll) = Some k'"
    and v: "values' = decay_others (select_genre_index cw roll)
                     (values[k' := min NOTORIETY_CAP (values ! k' + cheese)])"
    by (rule apply_hunt_step_Some)
  from k' assms(2) have "k' = k" by simp
  with v assms(3) show ?thesis
    by (simp add: decay_others_nth Let_def nth_list_update)
qed

lemma apply_hunt_step_length:
  "apply_hunt_step values cheese cw roll = Some values' \<Longrightarrow> length values' = length values"
  by (erule apply_hunt_step_Some) simp

text \<open>
  Claim C9. One step keeps every entry inside \<open>[0, 200]\<close>: for a vector with all entries
  in \<open>[0, 200]\<close> and a non-negative token magnitude, the step succeeds whenever the table
  has one threshold per entry, and in every result each entry is again in \<open>[0, 200]\<close>, an
  entry that was at least 1 is still at least 1, and an entry equal to 0 whose category
  was not selected is still 0.
\<close>

theorem apply_hunt_step_preserves_range:
  assumes "\<forall>v\<in>set values. 0 \<le> v \<and> v \<le> 200" and "0 \<le> cheese"
  shows "(cw \<noteq> [] \<and> length cw = length values \<longrightarrow>
            apply_hunt_step values cheese cw roll \<noteq> None) \<and>
         (\<forall>values' k. apply_hunt_step values cheese cw roll = Some values' \<and>
              py_index values (select_genre_index cw roll) = Some k \<longrightarrow>
            length values' = length values \<and>
            (\<forall>i<length values.
               0 \<le> values' ! i \<and> values' ! i \<le> 200 \<and>
               (1 \<le> values ! i \<longrightarrow> 1 \<le> values' ! i) \<and>
               (i \<noteq> k \<and> values ! i = 0 \<longrightarrow> values' ! i = 0)))"
proof (intro conjI allI impI)
  assume "cw \<noteq> [] \<and> length cw = length values"
  then show "apply_hunt_step values cheese cw roll \<noteq> None"
    using apply_hunt_step_total[of cw "values" cheese roll] by auto
next
  fix values' k
  assume h: "apply_hunt_step values cheese cw roll = Some values' \<and>
             py_index values (select_genre_index cw roll) = Some k"
  from h show "length values' = length values"
    using apply_hunt_step_length by blast
next
  fix values' k i
  assume h: "apply_hunt_step values cheese cw roll = Some values' \<and>
             py_index values (select_genre_index cw roll) = Some k"
    and i: "i < length values"
  from i assms(1) have r: "0 \<le> values ! i" "values ! i \<le> 200"
    by (auto simp: all_set_conv_all_nth)
  note nth = apply_hunt_step_nth[OF conjunct1[OF h] conjunct2[OF h] i]
  from r assms(2) show "0 \<le> values' ! i"
    by (auto simp: nth NOTORIETY_CAP_def Let_def)
  from r assms(2) show "values' ! i \<le> 200"
    by (auto simp: nth NOTORIETY_CAP_def Let_def)
  show "1 \<le> values' ! i" if "1 \<le> values ! i"
    using that r assms(2) by (auto simp: nth NOTORIETY_CAP_def Let_def)
  show "values' ! i = 0" if "i \<noteq> k \<and> values ! i = 0"
    using that by (auto simp: nth Let_def)
qed

theorem apply_hunt_step_preserves_range_witness:
  "apply_hunt_step [0, 1, 199, 80, 200] 50 [1/5, 2/5, 3/5, 4/5, 1] (1/2) = Some [0, 1, 200, 79, 199]"
proof -
  have h: "\<forall>v\<in>set [0, 1, 199, 80, 200::int]. 0 \<le> v \<and> v \<le> 200" "(0::int) \<le> 50"
    by simp_all
  have e: "apply_hunt_step [0, 1, 199, 80, 200] 50 [1/5, 2/5, 3/5, 4/5, 1] (1/2)
             = Some [0, 1, 200, 79, 199]"
    by (simp add: apply_hunt_step_def select_genre_index_def py_index_def decay_others_def
          enumerate_eq_zip NOTORIETY_CAP_def upt_rec)
  show ?thesis
    using apply_hunt_step_preserves_range[OF h, of "[1/5, 2/5, 3/5, 4/5, 1]" "1/2"] e
    by simp
qed

text \<open>
  Claim C1, as stated, fails: an entry at 0 whose category is not selected stays at 0,
  below the claimed floor of 1.
\<close>

theorem apply_hunt_step_floor_counterexample:
  "apply_hunt_step [0, 0, 0, 0, 0] 50 [1/5, 2/5, 3/5, 4/5, 1] (1/10) = Some [50, 0, 0, 0, 0] \<and>
   \<not> (1 \<le> [50, 0, 0, 0, 0::int] ! 1)"
  by (simp add: apply_hunt_step_def select_genre_index_def py_index_def decay_others_def
        enumerate_eq_zip NOTORIETY_CAP_def upt_rec)

text \<open>
  Claim C1, amended. For a token magnitude of at least 1, a vector with entries in
  \<open>[0, 200]\<close> and a table with one threshold per entry, the step succeeds and every entry
  of the result lies in \<open>[1, 200]\<close>, except the entries that were 0 and whose category was
  not selected, which stay 0. An unselected entry at 1 stays at 1, and a selected entry
  at 199 receiving a 50-magnitude token becomes 200.
\<close>

theorem apply_hunt_step_floor_cap:
  assumes "\<forall>v\<in>set values. 0 \<le> v \<and> v \<le> 200" and "1 \<le> cheese"
    and "cw \<noteq> []" and "length cw = length values"
  shows "\<exists>values'. apply_hunt_step values cheese cw roll = Some values' \<and>
           length values' = length values \<and>
           (\<forall>i<length values.
              (int i \<noteq> select_genre_index cw roll \<and> values ! i = 0 \<longrightarrow> values' ! i = 0) \<and>
              (int i = select_genre_index cw roll \<or> values ! i \<noteq> 0 \<longrightarrow>
                 1 \<le> values' ! i \<and> values' ! i \<le> 200) \<and>
              (int i \<noteq> select_genre_index cw roll \<and> values ! i = 1 \<longrightarrow> values' ! i = 1) \<and>
              (int i = select_genre_index cw roll \<and> values ! i = 199 \<and> cheese = 50 \<longrightarrow>
                 values' ! i = 200))"
proof -
  from apply_hunt_step_total[OF assms(3,4)] obtain values'
    where s: "apply_hunt_step values cheese cw roll = Some values'" by blast
  define idx where "idx = select_genre_index cw roll"
  from select_genre_index_range[OF assms(3), of roll] assms(4)
  have k: "py_index values idx = Some (nat idx)" and idx0: "0 \<le> idx"
    by (simp_all add: py_index_def Let_def idx_def)
  have "\<forall>i<length values.
              (int i \<noteq> idx \<and> values ! i = 0 \<longrightarrow> values' ! i = 0) \<and>
              (int i = idx \<or> values ! i \<noteq> 0 \<longrightarrow> 1 \<le> values' ! i \<and> values' ! i \<le> 200) \<and>
              (int i \<noteq> idx \<and> values ! i = 1 \<longrightarrow> values' ! i = 1) \<and>
              (int i = idx \<and> values ! i = 199 \<and> cheese = 50 \<longrightarrow> values' ! i = 200)"
  proof (intro allI impI)
    fix i assume i: "i < length values"
    from i assms(1) have r: "0 \<le> values ! i" "values ! i \<le> 200"
      by (auto simp: all_set_conv_all_nth)
    have eq: "(i = nat idx) = (int i = idx)" using idx0 by auto
    note nth = apply_hunt_step_nth[OF s k[unfolded idx_def] i, folded idx_def, unfolded eq]
    from r assms(2) show
      "(int i \<noteq> idx \<and> values ! i = 0 \<longrightarrow> values' ! i = 0) \<and>
       (int i = idx \<or> values ! i \<noteq> 0 \<longrightarrow> 1 \<le> values' ! i \<and> values' ! i \<le> 200) \<and>
       (int i \<noteq> idx \<and> values ! i = 1 \<longrightarrow> values' ! i = 1) \<and>
       (int i = idx \<and> values ! i = 199 \<and> cheese = 50 \<longrightarrow> values' ! i = 200)"
      by (auto simp: nth NOTORIETY_CAP_def Let_def)
  qed
  with s apply_hunt_step_length[OF s] show ?thesis
    unfolding idx_def by blast
qed

theorem apply_hunt_step_floor_cap_witness:
  "apply_hunt_step [0, 1, 199, 80, 200] 50 [1/5, 2/5, 3/5, 4/5, 1] (3/5) = Some [0, 1, 200, 79, 199] \<and>
   select_genre_index [1/5, 2/5, 3/5, 4/5, 1] (3/5) = 2"
proof -
  have h: "\<forall>v\<in>set [0, 1, 199, 80, 200::int]. 0 \<le> v \<and> v \<le> 200" "(1::int) \<le> 50"
    "[1/5, 2/5, 3/5, 4/5, 1::real] \<noteq> []"
    "length [1/5, 2/5, 3/5, 4/5, 1::real] = length [0, 1, 199, 80, 200::int]"
    by simp_all
  have e: "apply_hunt_step [0, 1, 199, 80, 200] 50 [1/5, 2/5, 3/5, 4/5, 1] (3/5)
             = Some [0, 1, 200, 79, 199]"
    "select_genre_index [1/5, 2/5, 3/5, 4/5, 1] (3/5) = 2"
    by (simp_all add: apply_hunt_step_def select_genre_index_def py_index_def decay_others_def
          enumerate_eq_zip NOTORIETY_CAP_def upt_rec)
  show ?thesis
    using apply_hunt_step_floor_cap[OF h, of "3/5"] e
    by simp
qed

section \<open>Properties of the Extension Policy\<close>

lemma any_below_Some:
  "\<forall>idx\<in>set tops. idx < length values \<Longrightarrow>
   any_below values thr tops = Some (\<exists>idx\<in>set tops. values ! idx < thr)"
  by (induction tops) auto

lemma zero_page_scan_nonzero:
  "\<forall>idx\<in>set tops. idx < length pc \<and> pc ! idx \<noteq> 0 \<Longrightarrow>
   zero_page_scan pc values tops = Some False"
  by (induction tops) auto

lemma extension_config_Some:
  assumes "extension_config setup idx0 = Some config"
  shows "auto_extend_var setup" "page_vars setup \<noteq> []" "0 < Max (set (page_vars setup))"
    "top_indices config = filter (\<lambda>idx. page_vars setup ! idx = Max (set (page_vars setup))) [0..<length (page_vars setup)]"
    "threshold_ready config = 80 + m_value setup" "threshold_high config = 33 + m_value setup"
    "extra_hunts config = 3" "setup_index config = idx0"
  using assms by (auto simp: extension_config_def Let_def split: if_splits)

lemma extension_config_with_counts_Some:
  assumes "extension_config_with_counts setup idx0 cc = Some config"
  shows "auto_extend_var setup" "cc \<noteq> []" "0 < Max (set cc)"
    "top_indices config = filter (\<lambda>idx. cc ! idx = Max (set cc)) [0..<length cc]"
    "threshold_ready config = 80 + m_value setup" "threshold_high config = 33 + m_value setup"
    "extra_hunts config = 3" "setup_index config = idx0"
  using assms by (auto simp: extension_config_with_counts_def Let_def split: if_splits)

lemma extension_choice_cases:
  assumes "(if \<not> sw
            then (case any_below values thr tops of
                    None \<Rightarrow> None
                  | Some True \<Rightarrow> Some (125, False)
                  | Some False \<Rightarrow> Some (50, True))
            else Some (50, True)) = Some (cheese, sw')"
  shows "sw' = (\<not> (\<not> sw \<and> any_below values thr tops = Some True))"
    and "cheese = (if \<not> sw \<and> any_below values thr tops = Some True then 125 else (50::int))"
  using assms by (auto split: if_splits option.splits bool.splits)

lemma all_le_Suc_shift: "(\<forall>j\<le>Suc i. Q j) = (Q 0 \<and> (\<forall>j\<le>i. Q (Suc j)))"
  by (metis Suc_le_mono le0 not0_implies_Suc)

lemma extension_loop_trace:
  assumes "extension_loop n sw values cw config rolls pos = Some (final, trace)"
  shows "length trace = n \<and> length final = length values \<and>
     (0 < n \<longrightarrow> fst (trace ! 0) = values) \<and>
     (\<forall>i<n. length (fst (trace ! i)) = length values \<and>
        snd (trace ! i) =
          (if \<not> sw \<and> (\<forall>j\<le>i. any_below (fst (trace ! j)) (threshold_high config)
                                   (top_indices config) = Some True)
           then 125 else 50) \<and>
        apply_hunt_step (fst (trace ! i)) (snd (trace ! i)) cw (rolls (pos + i)) =
          Some (if Suc i < n then fst (trace ! Suc i) else final))"
  using assms
proof (induction n arbitrary: sw "values" pos final trace)
  case 0
  then show ?case by simp
next
  case (Suc n)
  let ?P = "\<lambda>vs. any_below vs (threshold_high config) (top_indices config) = Some True"
  from Suc.prems obtain cheese sw' values' trace' where
    ch: "(if \<not> sw
            then (case any_below values (threshold_high config) (top_indices config) of
                    None \<Rightarrow> None
                  | Some True \<Rightarrow> Some (125, False)
                  | Some False \<Rightarrow> Some (50, True))
            else Some (50, True)) = Some (cheese, sw')"
    and st: "apply_hunt_step values cheese cw (rolls pos) = Some values'"
    and lp: "extension_loop n sw' values' cw config rolls (Suc pos) = Some (final, trace')"
    and tr: "trace = (values, cheese) # trace'"
    by (auto simp del: any_below.simps split: option.splits prod.splits)
  note c = extension_choice_cases[OF ch]
  note IH = Suc.IH[OF lp]
  from st have len: "length values' = length values" by (rule apply_hunt_step_length)
  from IH tr have l: "length trace = Suc n" by simp
  from IH len have lf: "length final = length values" by simp
  have step: "length (fst (trace ! i)) = length values \<and>
        snd (trace ! i) = (if \<not> sw \<and> (\<forall>j\<le>i. ?P (fst (trace ! j))) then 125 else 50) \<and>
        apply_hunt_step (fst (trace ! i)) (snd (trace ! i)) cw (rolls (pos + i)) =
          Some (if Suc i < Suc n then fst (trace ! Suc i) else final)"
    if i: "i < Suc n" for i
  proof (cases i)
    case 0
    from IH have "0 < n \<longrightarrow> fst (trace' ! 0) = values'" by simp
    moreover from IH have "n = 0 \<longrightarrow> final = values'"
      using lp by auto
    ultimately show ?thesis using 0 tr c st by auto
  next
    case (Suc i')
    with i have i': "i' < n" by simp
    from IH i' have a: "length (fst (trace' ! i')) = length values'"
      and b: "snd (trace' ! i') = (if \<not> sw' \<and> (\<forall>j\<le>i'. ?P (fst (trace' ! j))) then 125 else 50)"
      and d: "apply_hunt_step (fst (trace' ! i')) (snd (trace' ! i')) cw (rolls (Suc pos + i')) =
          Some (if Suc i' < n then fst (trace' ! Suc i') else final)"
      by blast+
    have sh: "(\<forall>j\<le>Suc i'. ?P (fst (trace ! j))) = (?P values \<and> (\<forall>j\<le>i'. ?P (fst (trace' ! j))))"
      by (subst all_le_Suc_shift) (simp add: tr)
    from a b d show ?thesis
      unfolding Suc sh using c(1) len by (simp add: tr)
  qed
  have first: "0 < Suc n \<longrightarrow> fst (trace ! 0) = values" using tr by simp
  from l lf first step show ?case by blast
qed

lemma extension_loop_total:
  assumes "cw \<noteq> []" "length cw = length values"
    and "\<forall>idx\<in>set (top_indices config). idx < length values"
  shows "\<exists>r. extension_loop n sw values cw config rolls pos = Some r"
  using assms
proof (induction n arbitrary: sw "values" pos)
  case 0
  then show ?case by simp
next
  case (Suc n)
  let ?b = "\<exists>idx\<in>set (top_indices config). values ! idx < threshold_high config"
  define cheese :: int where "cheese = (if \<not> sw \<and> ?b then 125 else 50)"
  define sw' where "sw' = (\<not> (\<not> sw \<and> ?b))"
  from any_below_Some[OF Suc.prems(3), of "threshold_high config"]
  have ch: "(if \<not> sw
            then (case any_below values (threshold_high config) (top_indices config) of
                    None \<Rightarrow> None
                  | Some True \<Rightarrow> Some (125, False)
                  | Some False \<Rightarrow> Some (50, True))
            else Some (50, True)) = Some (cheese, sw')"
    by (simp add: cheese_def sw'_def)
  from apply_hunt_step_total[OF Suc.prems(1,2)] obtain values'
    where st: "apply_hunt_step values cheese cw (rolls pos) = Some values'" by blast
  then have len: "length values' = length values" by (rule apply_hunt_step_length)
  with Suc.prems have "\<exists>r. extension_loop n sw' values' cw config rolls (Suc pos) = Some r"
    by (intro Suc.IH) simp_all
  then obtain final trace where
    "extension_loop n sw' values' cw config rolls (Suc pos) = Some (final, trace)" by force
  with ch st show ?case
    by (simp del: any_below.simps)
qed

lemma hunt_loop_length:
  "hunt_loop values seq cw rolls pos = Some values' \<Longrightarrow> length values' = length values"
proof (induction seq arbitrary: "values" pos)
  case Nil
  then show ?case by simp
next
  case (Cons c cs)
  from Cons.prems obtain mid where m: "apply_hunt_step values c cw (rolls pos) = Some mid"
    "hunt_loop mid cs cw rolls (Suc pos) = Some values'"
    by (auto split: option.splits)
  from Cons.IH[OF m(2)] apply_hunt_step_length[OF m(1)] show ?case by simp
qed

lemma execute_setup_first_stage:
  assumes run: "simulate_sequence start (sequences ! 0) (cws ! 0) rolls pos = Some (values, ready)"
    and sd: "setup_data \<noteq> []" "sequences \<noteq> []" "cws \<noteq> []"
    and cfg: "extension_config (setup_data ! 0) 0 = Some config"
    and len: "length start = length (page_vars (setup_data ! 0))"
      "cws ! 0 \<noteq> []" "length (cws ! 0) = length start"
  shows "\<exists>final ready'. execute_setup setup_data start 0 sequences cws rolls pos =
           Some (final, ready',
                 \<exists>idx\<in>set (top_indices config). values ! idx < 80 + m_value (setup_data ! 0))"
proof -
  note f = extension_config_Some[OF cfg]
  from run have hl: "hunt_loop start (sequences ! 0) (cws ! 0) rolls pos = Some values"
    by (auto simp: simulate_sequence_def split: option.splits)
  from hunt_loop_length[OF hl] len have lv: "length values = length (page_vars (setup_data ! 0))"
    "length (cws ! 0) = length values" by simp_all
  from f(4) lv(1) have tops: "\<forall>idx\<in>set (top_indices config). idx < length values" by auto
  define trig where "trig = (\<exists>idx\<in>set (top_indices config). values ! idx < 80 + m_value (setup_data ! 0))"
  from any_below_Some[OF tops, of "threshold_ready config"] f(5,8)
  have t: "should_trigger_extension setup_data values config = Some trig"
    by (simp add: should_trigger_extension_def trig_def)
  show ?thesis
  proof (cases trig)
    case False
    with run sd cfg t show ?thesis
      unfolding trig_def[symmetric] by (simp add: execute_setup_def)
  next
    case True
    from extension_loop_total[OF len(2) lv(2) tops, of "extra_hunts config" False rolls
        "pos + length (sequences ! 0)"]
    obtain final trace where
      "apply_extension values (cws ! 0) config rolls (pos + length (sequences ! 0)) = Some (final, trace)"
      by (auto simp: apply_extension_def)
    with True run sd cfg t show ?thesis
      unfolding trig_def[symmetric] by (simp add: execute_setup_def)
  qed
qed

text \<open>
  Claim C5. With auto-extend enabled and a page-count vector whose maximum is positive, the
  configuration of the first stage exists, its top indices are exactly the categories
  whose page count equals the maximum, and the trigger decision on the values of a
  completed run is: some top category's value is strictly below \<open>80 + m\<close>. The \<open>extended\<close>
  flag returned by \<open>_execute_setup\<close> for the first stage is that decision. A top category
  at exactly \<open>80 + m\<close> therefore does not trigger by itself.
\<close>

theorem first_stage_trigger_iff:
  assumes "auto_extend_var setup" and "page_vars setup \<noteq> []"
    and "0 < Max (set (page_vars setup))"
    and "length values = length (page_vars setup)"
  shows "\<exists>config. extension_config setup 0 = Some config \<and>
           set (top_indices config) =
             {idx. idx < length (page_vars setup) \<and>
                   page_vars setup ! idx = Max (set (page_vars setup))} \<and>
           should_trigger_extension setup_data values config =
             Some (\<exists>idx\<in>set (top_indices config). values ! idx < 80 + m_value setup) \<and>
           (setup_data \<noteq> [] \<and> setup_data ! 0 = setup \<and> sequences \<noteq> [] \<and> cws \<noteq> [] \<and>
            cws ! 0 \<noteq> [] \<and> length (cws ! 0) = length start \<and>
            simulate_sequence start (sequences ! 0) (cws ! 0) rolls pos = Some (values, ready) \<longrightarrow>
              (\<exists>final ready'. execute_setup setup_data start 0 sequences cws rolls pos =
                 Some (final, ready',
                       \<exists>idx\<in>set (top_indices config). values ! idx < 80 + m_value setup)))"
proof -
  from assms(1-3) obtain config where c: "extension_config setup 0 = Some config"
    by (auto simp: extension_config_def Let_def)
  note f = extension_config_Some[OF c]
  from f(4) have tops: "set (top_indices config) =
      {idx. idx < length (page_vars setup) \<and> page_vars setup ! idx = Max (set (page_vars setup))}"
    by auto
  with assms(4) have "\<forall>idx\<in>set (top_indices config). idx < length values" by simp
  from any_below_Some[OF this] f(5,8)
  have trig: "should_trigger_extension setup_data values config =
          Some (\<exists>idx\<in>set (top_indices config). values ! idx < 80 + m_value setup)"
    by (simp add: should_trigger_extension_def)
  have run: "\<exists>final ready'. execute_setup setup_data start 0 sequences cws rolls pos =
                 Some (final, ready',
                       \<exists>idx\<in>set (top_indices config). values ! idx < 80 + m_value setup)"
    if h: "setup_data \<noteq> [] \<and> setup_data ! 0 = setup \<and> sequences \<noteq> [] \<and> cws \<noteq> [] \<and>
            cws ! 0 \<noteq> [] \<and> length (cws ! 0) = length start \<and>
            simulate_sequence start (sequences ! 0) (cws ! 0) rolls pos = Some (values, ready)"
  proof -
    from h have hl: "hunt_loop start (sequences ! 0) (cws ! 0) rolls pos = Some values"
      by (auto simp: simulate_sequence_def split: option.splits)
    from hunt_loop_length[OF hl] assms(4) h
    have "length start = length (page_vars (setup_data ! 0))" by simp
    with execute_setup_first_stage[of start sequences cws rolls pos "values" ready setup_data config]
      h c show ?thesis by simp
  qed
  from c tops trig run show ?thesis by blast
qed

theorem first_stage_trigger_iff_witness:
  "extension_config \<lparr>extend_var = False, auto_extend_var = True, page_vars = [3, 5, 5, 0, 1], m_value = 10\<rparr> 0
     = Some \<lparr>top_indices = [1, 2], threshold_ready = 90, threshold_high = 43, extra_hunts = 3, setup_index = 0\<rparr> \<and>
   should_trigger_extension [] [200, 90, 90, 0, 0]
     \<lparr>top_indices = [1, 2], threshold_ready = 90, threshold_high = 43, extra_hunts = 3, setup_index = 0\<rparr>
     = Some False \<and>
   should_trigger_extension [] [200, 90, 89, 0, 0]
     \<lparr>top_indices = [1, 2], threshold_ready = 90, threshold_high = 43, extra_hunts = 3, setup_index = 0\<rparr>
     = Some True \<and>
   execute_setup
     [\<lparr>extend_var = False, auto_extend_var = True, page_vars = [3, 5, 5, 0, 1], m_value = 10\<rparr>]
     [0, 100, 100, 0, 0] 0 [[50, 50, 50, 50, 50, 50, 50, 50, 50, 50]] [[1/4, 1/2, 3/4, 7/8, 1]]
     (\<lambda>k. 1/8) 0 = Some ([200, 90, 90, 0, 0], False, False) \<and>
   execute_setup
     [\<lparr>extend_var = False, auto_extend_var = True, page_vars = [3, 5, 5, 0, 1], m_value = 10\<rparr>]
     [0, 100, 99, 0, 0] 0 [[50, 50, 50, 50, 50, 50, 50, 50, 50, 50]] [[1/4, 1/2, 3/4, 7/8, 1]]
     (\<lambda>k. 1/8) 0 = Some ([200, 87, 86, 0, 0], False, True)"
proof -
  let ?s = "\<lparr>extend_var = False, auto_extend_var = True, page_vars = [3, 5, 5, 0, 1], m_value = 10\<rparr>"
  have h: "auto_extend_var ?s" "page_vars ?s \<noteq> []" "0 < Max (set (page_vars ?s))"
    "length [200, 90, 90, 0, 0::int] = length (page_vars ?s)"
    "length [200, 90, 89, 0, 0::int] = length (page_vars ?s)"
    by simp_all
  have c: "extension_config ?s 0
     = Some \<lparr>top_indices = [1, 2], threshold_ready = 90, threshold_high = 43, extra_hunts = 3, setup_index = 0\<rparr>"
    by (simp add: extension_config_def upt_rec)
  from first_stage_trigger_iff[OF h(1,2,3,4), where setup_data = "[]"] obtain c1
    where "extension_config ?s 0 = Some c1"
      and "should_trigger_extension [] [200, 90, 90, 0, 0] c1 =
             Some (\<exists>idx\<in>set (top_indices c1). [200, 90, 90, 0, 0] ! idx < 80 + m_value ?s)"
    by blast
  with c have t1: "should_trigger_extension [] [200, 90, 90, 0, 0]
     \<lparr>top_indices = [1, 2], threshold_ready = 90, threshold_high = 43, extra_hunts = 3, setup_index = 0\<rparr>
     = Some False"
    by auto
  from first_stage_trigger_iff[OF h(1,2,3,5), where setup_data = "[]"] obtain c2
    where "extension_config ?s 0 = Some c2"
      and "should_trigger_extension [] [200, 90, 89, 0, 0] c2 =
             Some (\<exists>idx\<in>set (top_indices c2). [200, 90, 89, 0, 0] ! idx < 80 + m_value ?s)"
    by blast
  with c have t2: "should_trigger_extension [] [200, 90, 89, 0, 0]
     \<lparr>top_indices = [1, 2], threshold_ready = 90, threshold_high = 43, extra_hunts = 3, setup_index = 0\<rparr>
     = Some True"
    by auto
  have e: "execute_setup [?s] [0, 100, 100, 0, 0] 0 [[50, 50, 50, 50, 50, 50, 50, 50, 50, 50]]
       [[1/4, 1/2, 3/4, 7/8, 1]] (\<lambda>k. 1/8) 0 = Some ([200, 90, 90, 0, 0], False, False)"
    "execute_setup [?s] [0, 100, 99, 0, 0] 0 [[50, 50, 50, 50, 50, 50, 50, 50, 50, 50]]
       [[1/4, 1/2, 3/4, 7/8, 1]] (\<lambda>k. 1/8) 0 = Some ([200, 87, 86, 0, 0], False, True)"
    by (simp_all add: execute_setup_def simulate_sequence_def extension_config_def
        should_trigger_extension_def apply_extension_def eval_nat_numeral
        apply_hunt_step_def select_genre_index_def py_index_def decay_others_def
        enumerate_eq_zip NOTORIETY_CAP_def upt_rec)
  from c t1 t2 e show ?thesis by blast
qed

text \<open>
  Claim C7. An extension built by \<open>_extension_config\<close> takes exactly 3 extra steps. The
  step \<open>i\<close> uses magnitude 125 exactly when at every step up to and including \<open>i\<close> some top
  category was below \<open>33 + m\<close> before the step, and 50 otherwise; so once a step has used
  50, every later step of the extension uses 50, whatever the values do in between.
\<close>

theorem extension_one_way_switch:
  assumes "extension_config setup idx0 = Some config"
    and "cw \<noteq> []" and "length cw = length values"
    and "length values = length (page_vars setup)"
  shows "\<exists>final trace. apply_extension values cw config rolls pos = Some (final, trace) \<and>
     length trace = 3 \<and> fst (trace ! 0) = values \<and>
     (\<forall>i<3. snd (trace ! i) =
          (if \<forall>j\<le>i. \<exists>idx\<in>set (top_indices config). fst (trace ! j) ! idx < 33 + m_value setup
           then 125 else 50) \<and>
        apply_hunt_step (fst (trace ! i)) (snd (trace ! i)) cw (rolls (pos + i)) =
          Some (if Suc i < 3 then fst (trace ! Suc i) else final)) \<and>
     (\<forall>i j. i \<le> j \<and> j < 3 \<and> snd (trace ! i) = 50 \<longrightarrow> snd (trace ! j) = 50)"
proof -
  note f = extension_config_Some[OF assms(1)]
  from f(4) assms(4) have tops: "\<forall>idx\<in>set (top_indices config). idx < length values"
    by auto
  from extension_loop_total[OF assms(2,3) tops, of 3 False rolls pos] obtain final trace
    where run: "extension_loop 3 False values cw config rolls pos = Some (final, trace)"
    by force
  note t = extension_loop_trace[OF run]
  let ?B = "\<lambda>vs. \<exists>idx\<in>set (top_indices config). vs ! idx < 33 + m_value setup"
  have ab: "(any_below (fst (trace ! j)) (threshold_high config) (top_indices config) = Some True)
            = ?B (fst (trace ! j))" if "j < 3" for j
  proof -
    from t that have "length (fst (trace ! j)) = length values" by blast
    with tops have "\<forall>idx\<in>set (top_indices config). idx < length (fst (trace ! j))" by simp
    from any_below_Some[OF this, of "threshold_high config"] f(6) show ?thesis by simp
  qed
  have mag: "snd (trace ! i) = (if \<forall>j\<le>i. ?B (fst (trace ! j)) then 125 else 50)" if "i < 3" for i
  proof -
    from that have "(\<forall>j\<le>i. any_below (fst (trace ! j)) (threshold_high config) (top_indices config) = Some True)
        = (\<forall>j\<le>i. ?B (fst (trace ! j)))"
      using ab by auto
    with t that show ?thesis by simp
  qed
  have oneway: "snd (trace ! j) = 50" if "i \<le> j \<and> j < 3 \<and> snd (trace ! i) = 50" for i j
  proof -
    from that have i: "i < 3" and j: "j < 3" by auto
    from that mag[OF i] have "\<not> (\<forall>k\<le>i. ?B (fst (trace ! k)))"
      by (auto split: if_splits)
    with that have "\<not> (\<forall>k\<le>j. ?B (fst (trace ! k)))" by (meson le_trans)
    with mag[OF j] show ?thesis by simp
  qed
  from t have t1: "length trace = 3" by blast
  have "(0::nat) < 3" by simp
  with t have t2: "fst (trace ! 0) = values" by blast
  from t have t3: "\<forall>i<3. apply_hunt_step (fst (trace ! i)) (snd (trace ! i)) cw (rolls (pos + i)) =
          Some (if Suc i < 3 then fst (trace ! Suc i) else final)"
    by blast
  from run f(7) have r: "apply_extension values cw config rolls pos = Some (final, trace)"
    by (simp add: apply_extension_def)
  from r t1 t2 t3 mag oneway show ?thesis
    by blast
qed

theorem extension_one_way_switch_witness:
  "extension_config \<lparr>extend_var = False, auto_extend_var = True, page_vars = [5, 0, 0, 0, 0], m_value = 0\<rparr> 1
     = Some \<lparr>top_indices = [0], threshold_ready = 80, threshold_high = 33, extra_hunts = 3, setup_index = 1\<rparr> \<and>
   apply_extension [33, 50, 50, 50, 50] [1/5, 2/5, 3/5, 4/5, 1]
     \<lparr>top_indices = [0], threshold_ready = 80, threshold_high = 33, extra_hunts = 3, setup_index = 1\<rparr>
     (\<lambda>k. 3/10) 0
     = Some ([30, 200, 47, 47, 47],
             [([33, 50, 50, 50, 50], 50), ([32, 100, 49, 49, 49], 50), ([31, 150, 48, 48, 48], 50)])"
proof -
  let ?s = "\<lparr>extend_var = False, auto_extend_var = True, page_vars = [5, 0, 0, 0, 0], m_value = 0\<rparr>"
  let ?c = "\<lparr>top_indices = [0], threshold_ready = 80, threshold_high = 33, extra_hunts = 3, setup_index = 1\<rparr>"
  have c: "extension_config ?s 1 = Some ?c"
    by (simp add: extension_config_def upt_rec)
  have h: "[1/5, 2/5, 3/5, 4/5, 1::real] \<noteq> []"
    "length [1/5, 2/5, 3/5, 4/5, 1::real] = length [33, 50, 50, 50, 50::int]"
    "length [33, 50, 50, 50, 50::int] = length (page_vars ?s)"
    by simp_all
  have e: "apply_extension [33, 50, 50, 50, 50] [1/5, 2/5, 3/5, 4/5, 1] ?c (\<lambda>k. 3/10) 0
     = Some ([30, 200, 47, 47, 47],
             [([33, 50, 50, 50, 50], 50), ([32, 100, 49, 49, 49], 50), ([31, 150, 48, 48, 48], 50)])"
    by (simp add: apply_extension_def eval_nat_numeral apply_hunt_step_def select_genre_index_def
          py_index_def decay_others_def enumerate_eq_zip NOTORIETY_CAP_def upt_rec)
  from extension_one_way_switch[OF c h, of "\<lambda>k. 3/10" 0] obtain final trace where
    "apply_extension [33, 50, 50, 50, 50] [1/5, 2/5, 3/5, 4/5, 1] ?c (\<lambda>k. 3/10) 0 = Some (final, trace)"
    by blast
  with e c show ?thesis by simp
qed

text \<open>
  Claim C10. Whenever a configuration is built, the maximum page count is positive and the
  top indices are exactly the categories holding it, so no top category has page count 0:
  the second-stage loop never reaches its \<open>return False\<close>, in the plain and in the pruned
  variant, and the trigger decision is that some top category's value is strictly below
  \<open>80 + m\<close>.
\<close>

theorem zero_page_branch_unreachable:
  "(\<forall>config. extension_config (setup_data ! idx0) idx0 = Some config \<longrightarrow>
      0 < Max (set (page_vars (setup_data ! idx0))) \<and>
      set (top_indices config) =
        {idx. idx < length (page_vars (setup_data ! idx0)) \<and>
              page_vars (setup_data ! idx0) ! idx = Max (set (page_vars (setup_data ! idx0)))} \<and>
      (idx0 = 1 \<longrightarrow>
         zero_page_scan (page_vars (setup_data ! 1)) values (top_indices config) = Some False) \<and>
      (idx0 < length setup_data \<and> length values = length (page_vars (setup_data ! idx0)) \<longrightarrow>
         should_trigger_extension setup_data values config =
           Some (\<exists>idx\<in>set (top_indices config). values ! idx < 80 + m_value (setup_data ! idx0)))) \<and>
   (\<forall>config. extension_config_with_counts setup idx1 custom_counts = Some config \<longrightarrow>
      0 < Max (set custom_counts) \<and>
      set (top_indices config) =
        {idx. idx < length custom_counts \<and> custom_counts ! idx = Max (set custom_counts)} \<and>
      zero_page_scan custom_counts values (top_indices config) = Some False \<and>
      (length values = length custom_counts \<longrightarrow>
         should_trigger_extension_with_counts values config custom_counts =
           Some (\<exists>idx\<in>set (top_indices config). values ! idx < 80 + m_value setup)))"
proof (intro conjI allI impI)
  fix config
  assume c: "extension_config (setup_data ! idx0) idx0 = Some config"
  let ?pc = "page_vars (setup_data ! idx0)"
  note f = extension_config_Some[OF c]
  from f(3) show mx: "0 < Max (set ?pc)" .
  from f(4) show tops: "set (top_indices config) = {idx. idx < length ?pc \<and> ?pc ! idx = Max (set ?pc)}"
    by auto
  from tops mx have nz: "\<forall>idx\<in>set (top_indices config). idx < length ?pc \<and> ?pc ! idx \<noteq> 0"
    by auto
  show "zero_page_scan (page_vars (setup_data ! 1)) values (top_indices config) = Some False"
    if "idx0 = 1"
    using zero_page_scan_nonzero[OF nz, of "values"] that by simp
  show "should_trigger_extension setup_data values config =
           Some (\<exists>idx\<in>set (top_indices config). values ! idx < 80 + m_value (setup_data ! idx0))"
    if h: "idx0 < length setup_data \<and> length values = length ?pc"
  proof -
    from tops h have "\<forall>idx\<in>set (top_indices config). idx < length values" by simp
    note ab = any_below_Some[OF this, of "threshold_ready config"]
    show ?thesis
    proof (cases "idx0 = 1")
      case True
      with zero_page_scan_nonzero[OF nz, of "values"] ab f(5,8) h show ?thesis
        by (simp add: should_trigger_extension_def)
    next
      case False
      with ab f(5,8) show ?thesis
        by (simp add: should_trigger_extension_def)
    qed
  qed
next
  fix config
  assume c: "extension_config_with_counts setup idx1 custom_counts = Some config"
  note f = extension_config_with_counts_Some[OF c]
  from f(3) show mx: "0 < Max (set custom_counts)" .
  from f(4) show tops: "set (top_indices config) =
      {idx. idx < length custom_counts \<and> custom_counts ! idx = Max (set custom_counts)}"
    by auto
  from tops mx have nz: "\<forall>idx\<in>set (top_indices config). idx < length custom_counts \<and> custom_counts ! idx \<noteq> 0"
    by auto
  from zero_page_scan_nonzero[OF nz]
  show z: "zero_page_scan custom_counts values (top_indices config) = Some False" .
  show "should_trigger_extension_with_counts values config custom_counts =
           Some (\<exists>idx\<in>set (top_indices config). values ! idx < 80 + m_value setup)"
    if h: "length values = length custom_counts"
  proof -
    from tops h have "\<forall>idx\<in>set (top_indices config). idx < length values" by simp
    from any_below_Some[OF this, of "threshold_ready config"] z f(5) show ?thesis
      by (simp add: should_trigger_extension_with_counts_def)
  qed
qed

theorem zero_page_branch_unreachable_witness:
  "extension_config
     ([\<lparr>extend_var = False, auto_extend_var = True, page_vars = [1, 1, 1, 1, 1], m_value = 10\<rparr>,
       \<lparr>extend_var = False, auto_extend_var = True, page_vars = [0, 7, 7, 0, 2], m_value = 0\<rparr>] ! 1) 1
     = Some \<lparr>top_indices = [1, 2], threshold_ready = 80, threshold_high = 33, extra_hunts = 3, setup_index = 1\<rparr> \<and>
   zero_page_scan [0, 7, 7, 0, 2] [10, 80, 79, 0, 0] [1, 2] = Some False \<and>
   should_trigger_extension
     [\<lparr>extend_var = False, auto_extend_var = True, page_vars = [1, 1, 1, 1, 1], m_value = 10\<rparr>,
      \<lparr>extend_var = False, auto_extend_var = True, page_vars = [0, 7, 7, 0, 2], m_value = 0\<rparr>]
     [10, 80, 79, 0, 0]
     \<lparr>top_indices = [1, 2], threshold_ready = 80, threshold_high = 33, extra_hunts = 3, setup_index = 1\<rparr>
     = Some True \<and>
   extension_config_with_counts
     \<lparr>extend_var = False, auto_extend_var = True, page_vars = [0, 7, 7, 0, 2], m_value = 0\<rparr> 1 [0, 7, 0, 0, 2]
     = Some \<lparr>top_indices = [1], threshold_ready = 80, threshold_high = 33, extra_hunts = 3, setup_index = 1\<rparr> \<and>
   should_trigger_extension_with_counts [10, 80, 79, 0, 0]
     \<lparr>top_indices = [1], threshold_ready = 80, threshold_high = 33, extra_hunts = 3, setup_index = 1\<rparr>
     [0, 7, 0, 0, 2]
     = Some False"
proof -
  let ?s0 = "\<lparr>extend_var = False, auto_extend_var = True, page_vars = [1, 1, 1, 1, 1], m_value = 10\<rparr>"
  let ?s1 = "\<lparr>extend_var = False, auto_extend_var = True, page_vars = [0, 7, 7, 0, 2], m_value = 0\<rparr>"
  let ?c1 = "\<lparr>top_indices = [1, 2], threshold_ready = 80, threshold_high = 33, extra_hunts = 3, setup_index = 1\<rparr>"
  let ?c2 = "\<lparr>top_indices = [1], threshold_ready = 80, threshold_high = 33, extra_hunts = 3, setup_index = 1\<rparr>"
  have c1: "extension_config ([?s0, ?s1] ! 1) 1 = Some ?c1"
    by (simp add: extension_config_def upt_rec)
  have c2: "extension_config_with_counts ?s1 1 [0, 7, 0, 0, 2] = Some ?c2"
    by (simp add: extension_config_with_counts_def upt_rec)
  note u = zero_page_branch_unreachable[of "[?s0, ?s1]" 1 "[10, 80, 79, 0, 0]" ?s1 1 "[0, 7, 0, 0, 2]"]
  from u c1 have a: "zero_page_scan [0, 7, 7, 0, 2] [10, 80, 79, 0, 0] [1, 2] = Some False"
    by simp
  from u c1 have b: "should_trigger_extension [?s0, ?s1] [10, 80, 79, 0, 0] ?c1 = Some True"
    by simp
  from u c2 have d: "should_trigger_extension_with_counts [10, 80, 79, 0, 0] ?c2 [0, 7, 0, 0, 2] = Some False"
    by simp
  from c1 a b c2 d show ?thesis by blast
qed

section \<open>Properties of the pruned variant\<close>

lemma prune_loop_Some:
  "length nv = idx + length counts \<Longrightarrow>
   \<exists>pruned. prune_loop thr nv idx counts = Some pruned \<and> length pruned = length counts \<and>
     (\<forall>i<length counts. pruned ! i = (if nv ! (idx + i) > thr then 0 else counts ! i))"
proof (induction counts arbitrary: idx)
  case Nil
  then show ?case by simp
next
  case (Cons c cs)
  from Cons.prems have "length nv = Suc idx + length cs" by simp
  from Cons.IH[OF this] obtain pr where pr: "prune_loop thr nv (Suc idx) cs = Some pr"
    "length pr = length cs" "\<forall>i<length cs. pr ! i = (if nv ! (Suc idx + i) > thr then 0 else cs ! i)"
    by blast
  from Cons.prems have "idx < length nv" by simp
  with pr show ?case
    by (auto simp: nth_Cons split: nat.splits)
qed

text \<open>
  Claim C6. In the pruned variant the stage-2 page count of a category becomes 0 exactly
  when its stage-1 notoriety is strictly above the prune threshold, 93 when stage 2's
  extend flag is set and 90 otherwise; every other category keeps its page count.
\<close>

theorem prune_iff_above_threshold:
  assumes "1 < length setup_data"
    and "length notoriety_values = length (page_vars (setup_data ! 1))"
  shows "\<exists>pruned. build_pruned_page_counts setup_data notoriety_values = Some pruned \<and>
           length pruned = length (page_vars (setup_data ! 1)) \<and>
           (\<forall>idx<length pruned.
              pruned ! idx =
                (if notoriety_values ! idx > (if extend_var (setup_data ! 1) then 93 else 90)
                 then 0 else page_vars (setup_data ! 1) ! idx))"
proof -
  from assms(2) have "length notoriety_values = 0 + length (page_vars (setup_data ! 1))" by simp
  from prune_loop_Some[OF this, of "if extend_var (setup_data ! 1) then 93 else 90"] assms(1)
  show ?thesis
    by (auto simp: build_pruned_page_counts_def second_setup_prune_threshold_def)
qed

theorem prune_iff_above_threshold_witness:
  "build_pruned_page_counts
     [\<lparr>extend_var = False, auto_extend_var = False, page_vars = [1, 1, 1, 1, 1], m_value = 10\<rparr>,
      \<lparr>extend_var = False, auto_extend_var = False, page_vars = [4, 5, 6, 7, 8], m_value = 0\<rparr>]
     [89, 90, 91, 93, 94] = Some [4, 5, 0, 0, 0] \<and>
   build_pruned_page_counts
     [\<lparr>extend_var = False, auto_extend_var = False, page_vars = [1, 1, 1, 1, 1], m_value = 10\<rparr>,
      \<lparr>extend_var = True, auto_extend_var = False, page_vars = [4, 5, 6, 7, 8], m_value = 0\<rparr>]
     [89, 90, 91, 93, 94] = Some [4, 5, 6, 7, 0]"
proof -
  let ?s0 = "\<lparr>extend_var = False, auto_extend_var = False, page_vars = [1, 1, 1, 1, 1], m_value = 10\<rparr>"
  let ?a = "\<lparr>extend_var = False, auto_extend_var = False, page_vars = [4, 5, 6, 7, 8], m_value = 0\<rparr>"
  let ?b = "\<lparr>extend_var = True, auto_extend_var = False, page_vars = [4, 5, 6, 7, 8], m_value = 0\<rparr>"
  have h: "1 < length [?s0, ?a]" "length [89, 90, 91, 93, 94::int] = length (page_vars ([?s0, ?a] ! 1))"
    "1 < length [?s0, ?b]" "length [89, 90, 91, 93, 94::int] = length (page_vars ([?s0, ?b] ! 1))"
    by simp_all
  have e: "build_pruned_page_counts [?s0, ?a] [89, 90, 91, 93, 94] = Some [4, 5, 0, 0, 0]"
    "build_pruned_page_counts [?s0, ?b] [89, 90, 91, 93, 94] = Some [4, 5, 6, 7, 0]"
    by (simp_all add: build_pruned_page_counts_def second_setup_prune_threshold_def)
  from prune_iff_above_threshold[OF h(1,2)] prune_iff_above_threshold[OF h(3,4)] e
  show ?thesis by simp
qed

section \<open>Properties of the Distribution Optimizer\<close>

lemma hd_sort_key_least:
  assumes "x \<in> set xs"
  shows "k (hd (sort_key k xs)) \<le> k x"
proof -
  from assms have "xs \<noteq> []" by auto
  then have ne: "sort_key k xs \<noteq> []"
    using length_sort[of k xs] by (metis length_0_conv)
  have s: "sorted (map k (sort_key k xs))" by simp
  from assms have "x \<in> set (sort_key k xs)" by simp
  with s ne show ?thesis
    by (cases "sort_key k xs") auto
qed

lemma top_result_at_least_best:
  fixes best :: real
  shows "best \<le> fst (hd (sort_key (\<lambda>item. - fst item) (evaluated @ [(best, counts)])))"
proof -
  have "(best, counts) \<in> set (evaluated @ [(best, counts)])" by simp
  from hd_sort_key_least[OF this, of "\<lambda>item. - fst item"] show ?thesis by simp
qed

lemma top_result_bound:
  fixes best :: real
  assumes "fst (hd (sort_key (\<lambda>item. - fst item) (evaluated @ [(best, counts)]))) \<le> x"
  shows "best \<le> x"
  using top_result_at_least_best[of best evaluated counts] assms by linarith

lemma top_result_pair:
  fixes best :: real
  assumes "hd (sort_key (\<lambda>item. - fst item) (evaluated @ [(best, counts)])) = (p, c)"
  shows "best \<le> p"
  using top_result_at_least_best[of best evaluated counts] assms by simp

lemma optimization_iteration_prob:
  assumes "optimization_iteration params rolls draws iteration state = Returns state'"
  shows "best_prob state \<le> best_prob state'"
  using assms
  by (auto simp: optimization_iteration_def Let_def top_result_at_least_best
        split: option.splits prod.splits if_splits intro: top_result_bound
        dest: top_result_pair)

lemma optimization_loop_prob:
  assumes "optimization_loop params rolls draws its state = Returns state'"
  shows "best_prob state \<le> best_prob state'"
  using assms
proof (induction its arbitrary: state)
  case Nil
  then show ?case by simp
next
  case (Cons it its)
  from Cons.prems obtain mid where
    m: "optimization_iteration params rolls draws it state = Returns mid"
       "optimization_loop params rolls draws its mid = Returns state'"
    by (auto split: outcome.splits)
  from optimization_iteration_prob[OF m(1)] Cons.IH[OF m(2)] show ?case by simp
qed

text \<open>
  A concrete run: page counts 1, 0, 0, 0, 0, notoriety 200, 85, 200, 200, 200, ten
  50-tokens, range 100, one simulation and one candidate per iteration; every roll is
  \<open>1/4\<close> and every draw inside \<open>random.uniform\<close> is \<open>3/4\<close>. With all the weight on the
  first genre every hunt raises it and the second genre decays to 75; under the uniform
  fallback every hunt raises the second genre and all genres end at 190 or more.
\<close>

lemmas step_defs = apply_hunt_step_def select_genre_index_def py_index_def decay_others_def
  enumerate_eq_zip NOTORIETY_CAP_def upt_rec

lemma run_one_hot:
  "hunt_loop [200, 85, 200, 200, 200] [50, 50, 50, 50, 50, 50, 50, 50, 50, 50]
     [1, 1, 1, 1, 1] (\<lambda>k. 1/4) pos = Some [200, 75, 190, 190, 190]"
  by (simp add: step_defs)

lemma run_uniform:
  "hunt_loop [200, 85, 200, 200, 200] [50, 50, 50, 50, 50, 50, 50, 50, 50, 50]
     [3602879701896397 / 18014398509481984, 3602879701896397 / 9007199254740992,
      1351079888211149 / 2251799813685248, 3602879701896397 / 4503599627370496, 1]
     (\<lambda>k. 1/4) pos = Some [190, 200, 190, 190, 190]"
  by (simp add: step_defs)

lemma float_facts:
  "fadd 0 0 = 0" "fadd 0 1 = 1" "fadd 1 0 = 1" "fadd 0 2 = 2" "fadd 2 0 = 2"
  "fadd 0 (3/2) = 3/2" "fadd (3/2) 0 = 3/2"
  "fdiv 0 1 = 0" "fdiv 1 1 = 1" "fdiv 0 2 = 0" "fdiv 2 2 = 1"
  "fdiv 0 (3/2) = 0" "fdiv (3/2) (3/2) = 1"
  by code_simp+

lemmas prob_defs = simulate_probability_def weights_from_counts_def prepare_weight_cumulative_def
  fsum_def GENRES_def simulate_sequence_def

lemma prob_start:
  "simulate_probability [1, 0, 0, 0, 0] [200, 85, 200, 200, 200]
     [50, 50, 50, 50, 50, 50, 50, 50, 50, 50] 1 (\<lambda>k. 1/4) pos = Some 0"
  by (simp add: prob_defs float_facts run_one_hot del: hunt_loop.simps)

lemma prob_increase:
  "simulate_probability [2, 0, 0, 0, 0] [200, 85, 200, 200, 200]
     [50, 50, 50, 50, 50, 50, 50, 50, 50, 50] 1 (\<lambda>k. 1/4) pos = Some 0"
  by (simp add: prob_defs float_facts run_one_hot del: hunt_loop.simps)

lemma prob_random:
  "simulate_probability [3/2, 0, 0, 0, 0] [200, 85, 200, 200, 200]
     [50, 50, 50, 50, 50, 50, 50, 50, 50, 50] 1 (\<lambda>k. 1/4) pos = Some 0"
  by (simp add: prob_defs float_facts run_one_hot del: hunt_loop.simps)

lemma prob_zero:
  "simulate_probability [0, 0, 0, 0, 0] [200, 85, 200, 200, 200]
     [50, 50, 50, 50, 50, 50, 50, 50, 50, 50] 1 (\<lambda>k. 1/4) pos = Some 1"
  by (simp add: prob_defs float_facts float_steps_uniform run_uniform del: hunt_loop.simps)

lemma systematic_example: "systematic_candidates [1, 0, 0, 0, 0] 100 = [[2, 0, 0, 0, 0], [0, 0, 0, 0, 0]]"
  by code_simp

lemma generate_example: "generate_candidate_counts [1, 0, 0, 0, 0] 100 [0, 0, 0, 0, 0]
    \<lparr>sampled = [], uniforms = (\<lambda>j. 3/4)\<rparr> = [3/2, 0, 0, 0, 0]"
  by code_simp

lemma fill_example: "fill_candidates [1, 0, 0, 0, 0] 100 [0, 0, 0, 0, 0] 3
    (\<lambda>k. \<lparr>sampled = [], uniforms = (\<lambda>j. 3/4)\<rparr>) 0 [[2, 0, 0, 0, 0], [0, 0, 0, 0, 0]]
   = Some ([[2, 0, 0, 0, 0], [0, 0, 0, 0, 0], [3/2, 0, 0, 0, 0]], 1)"
  by (subst fill_candidates.simps, simp add: generate_example fsum_def float_facts,
      subst fill_candidates.simps, simp)

lemma evaluate_example: "evaluate_candidates [[2, 0, 0, 0, 0], [0, 0, 0, 0, 0], [3/2, 0, 0, 0, 0]]
     [200, 85, 200, 200, 200] [50, 50, 50, 50, 50, 50, 50, 50, 50, 50] 1 (\<lambda>k. 1/4) pos
   = Some [(0, [2, 0, 0, 0, 0]), (1, [0, 0, 0, 0, 0]), (0, [3/2, 0, 0, 0, 0])]"
  by (simp add: prob_increase[unfolded One_nat_def] prob_zero[unfolded One_nat_def]
        prob_random[unfolded One_nat_def])

lemma adaptive_facts:
  "round_double (3/5) = 5404319552844595 / 9007199254740992"
  "round_double (2/5) = 3602879701896397 / 9007199254740992"
  "fsub 1 0 = 1"
  "fmul (3602879701896397 / 9007199254740992) 1 = 3602879701896397 / 9007199254740992"
  "fadd (5404319552844595 / 9007199254740992) (3602879701896397 / 9007199254740992) = 1"
  "fmul 100 1 = 100" "fmul 1 1 = 1"
  by code_simp+

lemma blend_example:
  "blend_top_candidates [(1, [0, 0, 0, 0, 0]), (0, [2, 0, 0, 0, 0]), (0, [3/2, 0, 0, 0, 0])]
     = [0, 0, 0, 0, 0]"
  by code_simp

lemma bias_example:
  "update_direction_bias [0, 0, 0, 0, 0] [1, 0, 0, 0, 0] [0, 0, 0, 0, 0]
     = [- (5404319552844595 / 18014398509481984), 0, 0, 0, 0]"
  by code_simp

lemma first_iteration_example:
  "optimization_iteration
     \<lparr>base_notoriety = [200, 85, 200, 200, 200],
      cheese_sequence = [50, 50, 50, 50, 50, 50, 50, 50, 50, 50],
      dial_range = 100, iterations = 2, sims_per_distribution = 1, candidate_count = 1\<rparr>
     (\<lambda>k. 1/4) (\<lambda>k. \<lparr>sampled = [], uniforms = (\<lambda>j. 3/4)\<rparr>) 0
     \<lparr>best_counts = [1, 0, 0, 0, 0], best_prob = 0, direction_bias = [0, 0, 0, 0, 0],
      rolls_used = 10, draws_used = 0\<rparr>
   = Returns \<lparr>best_counts = [0, 0, 0, 0, 0], best_prob = 1,
               direction_bias = [- (5404319552844595 / 18014398509481984), 0, 0, 0, 0],
               rolls_used = 50, draws_used = 1\<rparr>"
  by (simp add: optimization_iteration_def Let_def adaptive_facts float_facts systematic_example fill_example
        evaluate_example[unfolded One_nat_def] prob_zero[unfolded One_nat_def] blend_example bias_example
        del: evaluate_candidates.simps)

text \<open>
  Once \<open>best_counts\<close> is all zero, every generated candidate is all zero, whatever is
  drawn, and the regeneration loop cannot reach the scheduled number of candidates.
\<close>

lemma fsum_zeros: "\<forall>v\<in>set xs. v = 0 \<Longrightarrow> fsum xs = 0"
  unfolding fsum_def by (induction xs) (simp_all add: fadd_def round_double_def)

lemma vary_selected_zeros:
  assumes "\<forall>v\<in>set base. v = 0" and "\<forall>v\<in>set varied. v = 0"
    and "length varied = length base"
  shows "\<forall>v\<in>set (vary_selected base r bias us k sel varied). v = 0"
  using assms(2,3)
proof (induction sel arbitrary: k varied)
  case Nil
  then show ?case by simp
next
  case (Cons idx sel)
  define x where "x = max 0 (fmul (base ! idx)
      (fadd 1 (fadd (random_uniform (fdiv (- r) 100) (fdiv r 100) (us k))
                    (fmul (if idx < length bias then bias ! idx else 0) (round_double (1/10))))))"
  have z: "\<forall>v\<in>set (varied[idx := x]). v = 0"
  proof (cases "idx < length base")
    case True
    with assms(1) have "base ! idx = 0" by simp
    then have "x = 0" by (simp add: x_def fmul_def round_double_def)
    with Cons.prems(1) set_update_subset_insert[of varied idx x] show ?thesis by auto
  next
    case False
    with Cons.prems show ?thesis by (simp add: list_update_beyond)
  qed
  have l: "length (varied[idx := x]) = length base" using Cons.prems(2) by simp
  from Cons.IH[OF z l] show ?case
    by (simp add: Let_def x_def)
qed

lemma generate_zero_sum:
  assumes "\<forall>v\<in>set base. v = 0"
  shows "fsum (generate_candidate_counts base r bias draw) = 0"
  unfolding generate_candidate_counts_def Let_def
  by (rule fsum_zeros, rule vary_selected_zeros[OF assms assms]) simp

lemma fill_candidates_zero_counts:
  assumes s: "fill_candidates bc r bias cc draws k cands = Some y"
  shows "\<not> ((\<forall>v\<in>set bc. v = 0) \<and> length cands < cc)"
proof (rule fill_candidates.raw_induct
    [where P = "\<lambda>bc r bias cc draws k cands y. \<not> ((\<forall>v\<in>set bc. v = 0) \<and> length cands < cc)",
     OF _ s])
  fix f :: "real list \<Rightarrow> real \<Rightarrow> real list \<Rightarrow> nat \<Rightarrow> (nat \<Rightarrow> candidate_draw) \<Rightarrow> nat \<Rightarrow>
              real list list \<Rightarrow> (real list list \<times> nat) option"
  fix bc r bias cc draws k cands y
  assume IH: "\<And>bc r bias cc draws k cands y. f bc r bias cc draws k cands = Some y \<Longrightarrow>
                \<not> ((\<forall>v\<in>set bc. v = 0) \<and> length cands < cc)"
    and st: "(if length cands < cc
              then let candidate = generate_candidate_counts bc r bias (draws k)
                   in if fsum candidate = 0 then f bc r bias cc draws (Suc k) cands
                      else f bc r bias cc draws (Suc k) (cands @ [candidate])
              else Some (cands, k)) = Some y"
  show "\<not> ((\<forall>v\<in>set bc. v = 0) \<and> length cands < cc)"
  proof
    assume z: "(\<forall>v\<in>set bc. v = 0) \<and> length cands < cc"
    then have "fsum (generate_candidate_counts bc r bias (draws k)) = 0"
      by (simp add: generate_zero_sum)
    with st z have "f bc r bias cc draws (Suc k) cands = Some y"
      by (simp add: Let_def)
    from IH[OF this] z show False by simp
  qed
qed

lemma systematic_candidates_zero_counts:
  assumes "\<forall>v\<in>set bc. v = 0"
  shows "length (systematic_candidates bc r) \<le> 1"
proof -
  have "concat (map (\<lambda>(idx, value).
                        if value \<le> 0 then []
                        else [bc[idx := max 0 (fmul value (fadd 1 (fdiv r 100)))],
                              bc[idx := max 0 (fmul value (fsub 1 (fdiv r 100)))]])
                      (enumerate 0 bc)) = []"
    using assms by (auto simp: in_set_enumerate_eq all_set_conv_all_nth nth_enumerate_eq)
  then show ?thesis
    by (simp add: systematic_candidates_def Let_def)
qed

lemma iteration_hangs_on_zero_counts:
  assumes "\<forall>v\<in>set (best_counts state). v = 0"
  shows "optimization_iteration params rolls draws iteration state = Hangs"
proof -
  define af where "af = fadd (round_double (6/10))
              (fmul (round_double (4/10))
                 (fsub 1 (fdiv (real iteration) (real (max 1 (iterations params - 1))))))"
  define cr where "cr = max 1 (fmul (real (dial_range params)) af)"
  define cc where "cc = max 3 (nat \<lfloor>fmul (real (candidate_count params)) af\<rfloor>)"
  from systematic_candidates_zero_counts[OF assms, of cr]
  have "length (systematic_candidates (best_counts state) cr) < cc" by (simp add: cc_def)
  with assms fill_candidates_zero_counts[of "best_counts state" cr "direction_bias state" cc draws
      "draws_used state" "systematic_candidates (best_counts state) cr"]
  have "fill_candidates (best_counts state) cr (direction_bias state) cc draws
      (draws_used state) (systematic_candidates (best_counts state) cr) = None"
    by (cases "fill_candidates (best_counts state) cr (direction_bias state) cc draws
      (draws_used state) (systematic_candidates (best_counts state) cr)") auto
  then show ?thesis
    by (simp add: optimization_iteration_def Let_def af_def cr_def cc_def)
qed

text \<open>
  Claim C8 fails on the code. With a single positive page count and a range of 100, the
  systematic decrease candidate is the all-zero vector; it is evaluated (only the random
  candidates are filtered), wins under the uniform fallback, and becomes \<open>best_counts\<close>.
  From then on every generated candidate is all zero, so the regeneration loop of the
  next iteration never ends, for every later random draw.
\<close>

theorem run_optimization_hangs:
  "run_optimization [200, 85, 200, 200, 200] [50, 50, 50, 50, 50, 50, 50, 50, 50, 50]
     [1, 0, 0, 0, 0] 100 2 1 1
     (\<lambda>k. 1/4) (\<lambda>k. \<lparr>sampled = [], uniforms = (\<lambda>j. 3/4)\<rparr>) = Hangs"
proof -
  let ?p = "\<lparr>base_notoriety = [200, 85, 200, 200, 200],
      cheese_sequence = [50, 50, 50, 50, 50, 50, 50, 50, 50, 50],
      dial_range = 100, iterations = 2, sims_per_distribution = 1, candidate_count = 1\<rparr>"
  let ?s1 = "\<lparr>best_counts = [0, 0, 0, 0, 0], best_prob = 1,
               direction_bias = [- (5404319552844595 / 18014398509481984), 0, 0, 0, 0],
               rolls_used = 50, draws_used = 1\<rparr>"
  have h: "optimization_iteration ?p (\<lambda>k. 1/4) (\<lambda>k. \<lparr>sampled = [], uniforms = (\<lambda>j. 3/4)\<rparr>) 1 ?s1 = Hangs"
    by (rule iteration_hangs_on_zero_counts) simp
  let ?s0 = "\<lparr>best_counts = [1, 0, 0, 0, 0], best_prob = 0, direction_bias = [0, 0, 0, 0, 0],
      rolls_used = 10, draws_used = 0\<rparr>"
  have r: "run_optimization [200, 85, 200, 200, 200] [50, 50, 50, 50, 50, 50, 50, 50, 50, 50]
     [1, 0, 0, 0, 0] 100 2 1 1 (\<lambda>k. 1/4) (\<lambda>k. \<lparr>sampled = [], uniforms = (\<lambda>j. 3/4)\<rparr>)
     = optimization_loop ?p (\<lambda>k. 1/4) (\<lambda>k. \<lparr>sampled = [], uniforms = (\<lambda>j. 3/4)\<rparr>) [0, 1] ?s0"
    by (simp add: run_optimization_def Let_def prob_start[unfolded One_nat_def] upt_rec GENRES_def
          eval_nat_numeral)
  have l: "optimization_loop ?p (\<lambda>k. 1/4) (\<lambda>k. \<lparr>sampled = [], uniforms = (\<lambda>j. 3/4)\<rparr>) [0, 1] ?s0
     = Hangs"
    by (simp only: optimization_loop.simps first_iteration_example h outcome.case)
  from r l show ?thesis by simp
qed

text \<open>
  Claim C4. Whatever the random streams give, an iteration that returns leaves a
  \<open>best_prob\<close> at least as large as the one it started with, and so does any sequence of
  iterations: the current best, with its recorded probability, is appended to the
  results before ranking, so the top-ranked probability is at least \<open>best_prob\<close>, and the
  blend is adopted only when its estimate is at least the top-ranked one.
\<close>

theorem best_prob_non_decreasing:
  "(optimization_iteration params rolls draws iteration state = Returns state' \<longrightarrow>
      best_prob state \<le> best_prob state') \<and>
   (optimization_loop params rolls draws its state = Returns final \<longrightarrow>
      best_prob state \<le> best_prob final)"
  using optimization_iteration_prob optimization_loop_prob by blast

theorem best_prob_non_decreasing_witness:
  "optimization_iteration
     \<lparr>base_notoriety = [200, 85, 200, 200, 200],
      cheese_sequence = [50, 50, 50, 50, 50, 50, 50, 50, 50, 50],
      dial_range = 100, iterations = 2, sims_per_distribution = 1, candidate_count = 1\<rparr>
     (\<lambda>k. 1/4) (\<lambda>k. \<lparr>sampled = [], uniforms = (\<lambda>j. 3/4)\<rparr>) 0
     \<lparr>best_counts = [1, 0, 0, 0, 0], best_prob = 0, direction_bias = [0, 0, 0, 0, 0],
      rolls_used = 10, draws_used = 0\<rparr>
   = Returns \<lparr>best_counts = [0, 0, 0, 0, 0], best_prob = 1,
               direction_bias = [- (5404319552844595 / 18014398509481984), 0, 0, 0, 0],
               rolls_used = 50, draws_used = 1\<rparr> \<and>
   best_prob \<lparr>best_counts = [1, 0, 0, 0, 0], best_prob = 0, direction_bias = [0, 0, 0, 0, 0],
      rolls_used = 10, draws_used = 0\<rparr>
   \<le> best_prob \<lparr>best_counts = [0, 0, 0, 0, 0], best_prob = 1,
               direction_bias = [- (5404319552844595 / 18014398509481984), 0, 0, 0, 0],
               rolls_used = 50, draws_used = 1\<rparr>"
  using best_prob_non_decreasing[of
     "\<lparr>base_notoriety = [200, 85, 200, 200, 200],
      cheese_sequence = [50, 50, 50, 50, 50, 50, 50, 50, 50, 50],
      dial_range = 100, iterations = 2, sims_per_distribution = 1, candidate_count = 1\<rparr>"
     "\<lambda>k. 1/4" "\<lambda>k. \<lparr>sampled = [], uniforms = (\<lambda>j. 3/4)\<rparr>" 0
     "\<lparr>best_counts = [1, 0, 0, 0, 0], best_prob = 0, direction_bias = [0, 0, 0, 0, 0],
      rolls_used = 10, draws_used = 0\<rparr>"
     "\<lparr>best_counts = [0, 0, 0, 0, 0], best_prob = 1,
               direction_bias = [- (5404319552844595 / 18014398509481984), 0, 0, 0, 0],
               rolls_used = 50, draws_used = 1\<rparr>"] first_iteration_example
  by blast

end
